theory Spec2Isabelle
  imports Complex_Main "HOL-Library.Word"
begin

section \<open>Common conventions\<close>

text \<open>
  The repository holds three coordination protocols (a bounded print queue, a ring of
  processing boards shared by video editors, and a product catalog with readers and
  writers), each written with monitors, with mutexes and with semaphores. Every shared
  structure becomes a record, every function that runs under the structure's lock becomes
  a function on that record, and a call that would sleep on a condition variable or a
  semaphore in the given state has the value \<open>None\<close>: the call does not complete there.

  C's \<open>%\<close> truncates towards zero; \<open>c_rem\<close> is that remainder.
\<close>

definition c_rem :: "int \<Rightarrow> int \<Rightarrow> int" where
  "c_rem a b = sgn a * (\<bar>a\<bar> mod \<bar>b\<bar>)"

section \<open>Bounded buffer: print\_system\_monitor.c\<close>

definition BUFFER_SIZE :: int where
  "BUFFER_SIZE = 5"

definition NUM_PRODUCERS :: int where
  "NUM_PRODUCERS = 3"

text \<open>The struct \<open>Document\<close>; its fields \<open>id\<close>, \<open>type\<close> and \<open>size\<close> carry the
  prefix \<open>doc_\<close> since HOL already uses these names.\<close>

record Document =
  doc_id :: int
  doc_type :: string
  doc_size :: int
  producer_id :: int

text \<open>The struct \<open>PrintQueueMonitor\<close> without its locks and condition variables. The
  fields \<open>in\<close> and \<open>out\<close> are \<open>in_ix\<close> and \<open>out_ix\<close>. The counters are C \<open>int\<close>s that
  stay within \<open>0..BUFFER_SIZE\<close>, so they are modelled as unbounded integers.\<close>

record PrintQueueMonitor =
  buffer :: "Document list"
  count :: int
  in_ix :: int
  out_ix :: int
  active_producers :: int
  should_stop :: int

definition zero_document :: Document where
  "zero_document = \<lparr>doc_id = 0, doc_type = [], doc_size = 0, producer_id = 0\<rparr>"

text \<open>The global \<open>print_queue\<close> before \<open>monitor_init\<close>: static storage, all zero.\<close>

definition print_queue :: PrintQueueMonitor where
  "print_queue = \<lparr>buffer = replicate (nat BUFFER_SIZE) zero_document, count = 0,
     in_ix = 0, out_ix = 0, active_producers = 0, should_stop = 0\<rparr>"

definition monitor_init :: "PrintQueueMonitor \<Rightarrow> PrintQueueMonitor" where
  "monitor_init m = m\<lparr>count := 0, in_ix := 0, out_ix := 0,
     active_producers := NUM_PRODUCERS, should_stop := 0\<rparr>"

text \<open>\<open>monitor_insert\<close>: \<open>None\<close> while the buffer is full and the stop flag is clear (the
  caller sleeps on \<open>not_full\<close>); with the stop flag set the call returns and stores
  nothing; otherwise the document goes to slot \<open>in\<close>.\<close>

definition monitor_insert :: "PrintQueueMonitor \<Rightarrow> Document \<Rightarrow> PrintQueueMonitor option" where
  "monitor_insert m doc =
     (if count m = BUFFER_SIZE \<and> should_stop m = 0 then None
      else if should_stop m \<noteq> 0 then Some m
      else Some (m\<lparr>buffer := (buffer m)[nat (in_ix m) := doc],
                    in_ix := c_rem (in_ix m + 1) BUFFER_SIZE,
                    count := count m + 1\<rparr>))"

text \<open>\<open>monitor_remove\<close>: the result is the new monitor, the returned \<open>int\<close> and what was
  stored through the pointer \<open>doc\<close> (\<open>None\<close> when the function does not write it).\<close>

definition monitor_remove ::
  "PrintQueueMonitor \<Rightarrow> (PrintQueueMonitor \<times> int \<times> Document option) option" where
  "monitor_remove m =
     (if count m = 0 \<and> should_stop m = 0 then
        (if active_producers m = 0 then Some (m, 0, None) else None)
      else if should_stop m \<noteq> 0 \<and> count m = 0 then Some (m, 0, None)
      else Some (m\<lparr>out_ix := c_rem (out_ix m + 1) BUFFER_SIZE, count := count m - 1\<rparr>,
                 1, Some (buffer m ! nat (out_ix m))))"

text \<open>A sequential caller: a list of calls, each run to completion. The run is \<open>None\<close>
  as soon as one call would sleep; otherwise it gives the final monitor and the documents
  handed out by the successful removals, oldest first.\<close>

datatype channel_op = Insert Document | Remove

fun channel_step ::
  "channel_op \<Rightarrow> PrintQueueMonitor \<Rightarrow> (PrintQueueMonitor \<times> Document list) option" where
  "channel_step (Insert d) m = map_option (\<lambda>m'. (m', [])) (monitor_insert m d)"
| "channel_step Remove m =
     map_option (\<lambda>(m', r, d). (m', if r = 1 then (case d of None \<Rightarrow> [] | Some x \<Rightarrow> [x]) else []))
       (monitor_remove m)"

fun channel_run ::
  "channel_op list \<Rightarrow> PrintQueueMonitor \<Rightarrow> (PrintQueueMonitor \<times> Document list) option" where
  "channel_run [] m = Some (m, [])"
| "channel_run (c # cs) m =
     (case channel_step c m of
        None \<Rightarrow> None
      | Some (m', xs) \<Rightarrow>
          (case channel_run cs m' of None \<Rightarrow> None | Some (m'', ys) \<Rightarrow> Some (m'', xs @ ys)))"

text \<open>The documents passed to \<open>monitor_insert\<close> by a list of calls, in call order.\<close>

fun inserted :: "channel_op list \<Rightarrow> Document list" where
  "inserted [] = []"
| "inserted (Insert d # cs) = d # inserted cs"
| "inserted (Remove # cs) = inserted cs"

text \<open>The occupied slots, read from \<open>out\<close> onwards with wrap-around.\<close>

definition queued :: "PrintQueueMonitor \<Rightarrow> Document list" where
  "queued m = map (\<lambda>k. buffer m ! nat ((out_ix m + int k) mod BUFFER_SIZE)) [0..<nat (count m)]"

text \<open>The reference: a first-in first-out queue of capacity \<open>BUFFER_SIZE\<close> as a list.
  Inserting into a full queue and removing from an empty one do not complete.\<close>

fun fifo_step :: "channel_op \<Rightarrow> Document list \<Rightarrow> (Document list \<times> Document list) option" where
  "fifo_step (Insert d) q = (if int (length q) = BUFFER_SIZE then None else Some (q @ [d], []))"
| "fifo_step Remove q = (case q of [] \<Rightarrow> None | x # q' \<Rightarrow> Some (q', [x]))"

fun fifo_run :: "channel_op list \<Rightarrow> Document list \<Rightarrow> (Document list \<times> Document list) option" where
  "fifo_run [] q = Some (q, [])"
| "fifo_run (c # cs) q =
     (case fifo_step c q of
        None \<Rightarrow> None
      | Some (q', xs) \<Rightarrow>
          (case fifo_run cs q' of None \<Rightarrow> None | Some (q'', ys) \<Rightarrow> Some (q'', xs @ ys)))"

text \<open>The invariant of the indices and the counter.\<close>

definition channel_inv :: "PrintQueueMonitor \<Rightarrow> bool" where
  "channel_inv m \<longleftrightarrow>
     int (length (buffer m)) = BUFFER_SIZE \<and>
     0 \<le> count m \<and> count m \<le> BUFFER_SIZE \<and>
     0 \<le> in_ix m \<and> in_ix m < BUFFER_SIZE \<and>
     0 \<le> out_ix m \<and> out_ix m < BUFFER_SIZE \<and>
     in_ix m = (out_ix m + count m) mod BUFFER_SIZE"

text \<open>Five documents numbered 1 to 5, inserted one after the other, and the monitor they
  leave behind.\<close>

definition numbered :: "int \<Rightarrow> Document" where
  "numbered k = zero_document\<lparr>doc_id := k\<rparr>"

definition fill_ops :: "channel_op list" where
  "fill_ops = [Insert (numbered 1), Insert (numbered 2), Insert (numbered 3),
     Insert (numbered 4), Insert (numbered 5)]"

definition full_queue :: PrintQueueMonitor where
  "full_queue = \<lparr>buffer = [numbered 1, numbered 2, numbered 3, numbered 4, numbered 5],
     count = 5, in_ix = 0, out_ix = 0, active_producers = 3, should_stop = 0\<rparr>"

text \<open>A shorter run with removals, and monitors with the stop flag set and with no
  producer left.\<close>

definition drain_ops :: "channel_op list" where
  "drain_ops = [Insert (numbered 1), Insert (numbered 2), Remove, Insert (numbered 3), Remove]"

definition drained_queue :: PrintQueueMonitor where
  "drained_queue = \<lparr>buffer = [numbered 1, numbered 2, numbered 3, zero_document, zero_document],
     count = 1, in_ix = 3, out_ix = 2, active_producers = 3, should_stop = 0\<rparr>"

definition stopped_queue :: PrintQueueMonitor where
  "stopped_queue = (monitor_init print_queue)\<lparr>should_stop := 1\<rparr>"

definition finished_queue :: PrintQueueMonitor where
  "finished_queue = (monitor_init print_queue)\<lparr>active_producers := 0\<rparr>"

section \<open>Board ring: video\_studio\_monitor.c\<close>

definition NUM_EDITORS :: nat where
  "NUM_EDITORS = 5"

definition NUM_BOARDS :: nat where
  "NUM_BOARDS = 5"

datatype EditorState = THINKING | HUNGRY | EDITING

text \<open>The struct \<open>StudioMonitor\<close> without its mutex and condition variables. Editor and
  board numbers are array indices, modelled as natural numbers; the field \<open>should_stop\<close>
  is \<open>studio_should_stop\<close> here.\<close>

record StudioMonitor =
  state :: "EditorState list"
  board_in_use :: "int list"
  studio_should_stop :: int

text \<open>\<open>monitor_init\<close> of the studio.\<close>

definition studio_monitor_init :: StudioMonitor where
  "studio_monitor_init = \<lparr>state = replicate NUM_EDITORS THINKING,
     board_in_use = replicate NUM_BOARDS 0, studio_should_stop = 0\<rparr>"

definition can_edit :: "StudioMonitor \<Rightarrow> nat \<Rightarrow> bool" where
  "can_edit s editor_id =
     (let left_board = editor_id; right_board = (editor_id + 1) mod NUM_BOARDS
      in state s ! editor_id = HUNGRY \<and> board_in_use s ! left_board = 0 \<and>
         board_in_use s ! right_board = 0)"

definition try_to_edit :: "StudioMonitor \<Rightarrow> nat \<Rightarrow> StudioMonitor" where
  "try_to_edit s editor_id =
     (if can_edit s editor_id
      then s\<lparr>state := (state s)[editor_id := EDITING],
             board_in_use := (board_in_use s)[editor_id := 1,
                                (editor_id + 1) mod NUM_BOARDS := 1]\<rparr>
      else s)"

text \<open>\<open>request_boards\<close> up to its wait loop. The caller returns from the loop once its
  state is no longer \<open>HUNGRY\<close>; the loop itself changes nothing, since the state is set to
  \<open>EDITING\<close> by \<open>try_to_edit\<close>, here or in a neighbour's \<open>release_boards\<close>.\<close>

definition request_boards :: "StudioMonitor \<Rightarrow> nat \<Rightarrow> StudioMonitor" where
  "request_boards s editor_id = try_to_edit (s\<lparr>state := (state s)[editor_id := HUNGRY]\<rparr>) editor_id"

definition release_boards :: "StudioMonitor \<Rightarrow> nat \<Rightarrow> StudioMonitor" where
  "release_boards s editor_id =
     (let s1 = s\<lparr>state := (state s)[editor_id := THINKING],
                  board_in_use := (board_in_use s)[editor_id := 0,
                                     (editor_id + 1) mod NUM_BOARDS := 0]\<rparr>;
          s2 = try_to_edit s1 ((editor_id + NUM_EDITORS - 1) mod NUM_EDITORS)
      in try_to_edit s2 ((editor_id + 1) mod NUM_EDITORS))"

text \<open>The editor threads (function \<open>editor\<close>): editor \<open>i\<close> calls \<open>request_boards(i)\<close> after
  thinking and \<open>release_boards(i)\<close> after \<open>request_boards(i)\<close> has returned, that is, once
  its state is \<open>EDITING\<close>. A call an editor cannot make in the given state is \<open>None\<close>.\<close>

datatype studio_call = Request nat | Release nat

fun studio_step :: "studio_call \<Rightarrow> StudioMonitor \<Rightarrow> StudioMonitor option" where
  "studio_step (Request i) s =
     (if i < NUM_EDITORS \<and> state s ! i = THINKING then Some (request_boards s i) else None)"
| "studio_step (Release i) s =
     (if i < NUM_EDITORS \<and> state s ! i = EDITING then Some (release_boards s i) else None)"

fun studio_run :: "studio_call list \<Rightarrow> StudioMonitor \<Rightarrow> StudioMonitor option" where
  "studio_run [] s = Some s"
| "studio_run (c # cs) s =
     (case studio_step c s of None \<Rightarrow> None | Some s' \<Rightarrow> studio_run cs s')"

text \<open>The monitor does not record who uses a board. An editor holds a board when the board
  is one of its two, is marked in use, and the editor is \<open>EDITING\<close>: \<open>try_to_edit\<close> marks
  the two boards when it sets that state and \<open>release_boards\<close> clears them when it leaves it.\<close>

definition holds :: "StudioMonitor \<Rightarrow> nat \<Rightarrow> nat \<Rightarrow> bool" where
  "holds s i b \<longleftrightarrow>
     state s ! i = EDITING \<and> (b = i \<or> b = (i + 1) mod NUM_BOARDS) \<and> board_in_use s ! b \<noteq> 0"

text \<open>The invariant of the studio monitor: a board is marked in use exactly when one of the
  two editors next to it is \<open>EDITING\<close>, and no editor is \<open>EDITING\<close> together with its right
  neighbour.\<close>

definition studio_inv :: "StudioMonitor \<Rightarrow> bool" where
  "studio_inv s \<longleftrightarrow>
     length (state s) = NUM_EDITORS \<and> length (board_in_use s) = NUM_BOARDS \<and>
     list_all (\<lambda>b. board_in_use s ! b =
                 (if state s ! b = EDITING \<or> state s ! ((b + NUM_EDITORS - 1) mod NUM_EDITORS) = EDITING
                  then 1 else 0)) [0..<NUM_BOARDS] \<and>
     list_all (\<lambda>i. \<not> (state s ! i = EDITING \<and> state s ! ((i + 1) mod NUM_EDITORS) = EDITING))
       [0..<NUM_EDITORS]"

text \<open>Two states of the studio monitor: editor 0 \<open>HUNGRY\<close> with all boards free, and editor
  0 \<open>EDITING\<close> with boards 0 and 1.\<close>

definition one_hungry :: StudioMonitor where
  "one_hungry = \<lparr>state = [HUNGRY, THINKING, THINKING, THINKING, THINKING],
     board_in_use = [0, 0, 0, 0, 0], studio_should_stop = 0\<rparr>"

definition one_editing :: StudioMonitor where
  "one_editing = \<lparr>state = [EDITING, THINKING, THINKING, THINKING, THINKING],
     board_in_use = [1, 1, 0, 0, 0], studio_should_stop = 0\<rparr>"

section \<open>Board ring: video\_studio\_sem.c\<close>

text \<open>The struct \<open>StudioControl\<close> of the semaphore variant: a semaphore is its counter. The
  field \<open>state\<close> is \<open>state_sem\<close> here and \<open>mutex\<close> is \<open>mutex_sem\<close>.\<close>

record StudioControl =
  state_sem :: "EditorState list"
  sem_editors :: "nat list"
  mutex_sem :: nat
  boards :: "nat list"

definition init_studio :: StudioControl where
  "init_studio = \<lparr>state_sem = replicate NUM_EDITORS THINKING,
     sem_editors = replicate NUM_EDITORS 0, mutex_sem = 1, boards = replicate NUM_BOARDS 1\<rparr>"

definition test_editor :: "StudioControl \<Rightarrow> nat \<Rightarrow> StudioControl" where
  "test_editor c editor_id =
     (let left = editor_id; right = (editor_id + 1) mod NUM_EDITORS
      in if state_sem c ! editor_id = HUNGRY \<and> state_sem c ! left \<noteq> EDITING \<and>
            state_sem c ! right \<noteq> EDITING
         then c\<lparr>state_sem := (state_sem c)[editor_id := EDITING],
                sem_editors := (sem_editors c)[editor_id := sem_editors c ! editor_id + 1]\<rparr>
         else c)"

text \<open>The part of \<open>get_boards\<close> between \<open>sem_wait(&studio.mutex)\<close> and
  \<open>sem_post(&studio.mutex)\<close>, and the whole of \<open>put_boards\<close>, which lies between the same
  two calls. Neither can sleep inside, so each is one step, possible when the mutex
  semaphore is positive, and leaves that semaphore as it found it.\<close>

definition get_boards_enter :: "StudioControl \<Rightarrow> nat \<Rightarrow> StudioControl option" where
  "get_boards_enter c editor_id =
     (if mutex_sem c = 0 then None
      else Some (test_editor (c\<lparr>state_sem := (state_sem c)[editor_id := HUNGRY]\<rparr>) editor_id))"

definition put_boards :: "StudioControl \<Rightarrow> nat \<Rightarrow> StudioControl option" where
  "put_boards c editor_id =
     (if mutex_sem c = 0 then None
      else
        (let c1 = c\<lparr>state_sem := (state_sem c)[editor_id := THINKING]\<rparr>;
             c2 = c1\<lparr>boards := (boards c1)[editor_id := boards c1 ! editor_id + 1]\<rparr>;
             c3 = c2\<lparr>boards := (boards c2)[(editor_id + 1) mod NUM_BOARDS :=
                                      boards c2 ! ((editor_id + 1) mod NUM_BOARDS) + 1]\<rparr>;
             c4 = test_editor c3 ((editor_id + NUM_EDITORS - 1) mod NUM_EDITORS)
         in Some (test_editor c4 ((editor_id + 1) mod NUM_EDITORS))))"

text \<open>\<open>sem_wait\<close> on the \<open>k\<close>-th semaphore of an array: \<open>None\<close> when its counter is 0.\<close>

definition sem_wait_at :: "nat list \<Rightarrow> nat \<Rightarrow> nat list option" where
  "sem_wait_at sems k = (if sems ! k = 0 then None else Some (sems[k := sems ! k - 1]))"

text \<open>Where an editor thread stands: outside \<open>get_boards\<close>; before each of the three
  \<open>sem_wait\<close> calls that follow the mutex section of \<open>get_boards\<close>; or past \<open>get_boards\<close>,
  editing, with \<open>put_boards\<close> next.\<close>

datatype editor_pc = Planning | AwaitTurn | AwaitLeft | AwaitRight | Working

record sem_studio =
  ctl :: StudioControl
  pcs :: "editor_pc list"

definition sem_studio_init :: sem_studio where
  "sem_studio_init = \<lparr>ctl = init_studio, pcs = replicate NUM_EDITORS Planning\<rparr>"

text \<open>One step of editor \<open>i\<close>: its next semaphore operation or mutex section. \<open>None\<close> when
  that operation would sleep.\<close>

definition sem_step :: "nat \<Rightarrow> sem_studio \<Rightarrow> sem_studio option" where
  "sem_step i y =
     (if NUM_EDITORS \<le> i then None
      else case pcs y ! i of
        Planning \<Rightarrow>
          map_option (\<lambda>c. \<lparr>ctl = c, pcs = (pcs y)[i := AwaitTurn]\<rparr>) (get_boards_enter (ctl y) i)
      | AwaitTurn \<Rightarrow>
          map_option (\<lambda>e. \<lparr>ctl = (ctl y)\<lparr>sem_editors := e\<rparr>, pcs = (pcs y)[i := AwaitLeft]\<rparr>)
            (sem_wait_at (sem_editors (ctl y)) i)
      | AwaitLeft \<Rightarrow>
          map_option (\<lambda>b. \<lparr>ctl = (ctl y)\<lparr>boards := b\<rparr>, pcs = (pcs y)[i := AwaitRight]\<rparr>)
            (sem_wait_at (boards (ctl y)) i)
      | AwaitRight \<Rightarrow>
          map_option (\<lambda>b. \<lparr>ctl = (ctl y)\<lparr>boards := b\<rparr>, pcs = (pcs y)[i := Working]\<rparr>)
            (sem_wait_at (boards (ctl y)) ((i + 1) mod NUM_BOARDS))
      | Working \<Rightarrow>
          map_option (\<lambda>c. \<lparr>ctl = c, pcs = (pcs y)[i := Planning]\<rparr>) (put_boards (ctl y) i))"

text \<open>A schedule names the editor that moves next.\<close>

fun sem_run :: "nat list \<Rightarrow> sem_studio \<Rightarrow> sem_studio option" where
  "sem_run [] y = Some y"
| "sem_run (i # is) y = (case sem_step i y of None \<Rightarrow> None | Some y' \<Rightarrow> sem_run is y')"

text \<open>Editor \<open>i\<close> has taken board semaphore \<open>b\<close> and not yet given it back: since its last
  \<open>sem_wait\<close> on the left board for \<open>b = i\<close>, on the right board for the board after it.\<close>

definition sem_holds :: "sem_studio \<Rightarrow> nat \<Rightarrow> nat \<Rightarrow> bool" where
  "sem_holds y i b \<longleftrightarrow>
     (b = i \<and> (pcs y ! i = AwaitRight \<or> pcs y ! i = Working)) \<or>
     (b = (i + 1) mod NUM_BOARDS \<and> pcs y ! i = Working)"

text \<open>States of the semaphore variant: editor 0 between its two board semaphores; the
  state one step earlier; and editor 1 with board 1 taken while editor 2 works on boards
  2 and 3.\<close>

definition sem_first_board :: sem_studio where
  "sem_first_board = \<lparr>ctl = \<lparr>state_sem = [EDITING, THINKING, THINKING, THINKING, THINKING],
       sem_editors = [0, 0, 0, 0, 0], mutex_sem = 1, boards = [0, 1, 1, 1, 1]\<rparr>,
     pcs = [AwaitRight, Planning, Planning, Planning, Planning]\<rparr>"

definition sem_second_step :: sem_studio where
  "sem_second_step = \<lparr>ctl = \<lparr>state_sem = [EDITING, THINKING, THINKING, THINKING, THINKING],
       sem_editors = [0, 0, 0, 0, 0], mutex_sem = 1, boards = [1, 1, 1, 1, 1]\<rparr>,
     pcs = [AwaitLeft, Planning, Planning, Planning, Planning]\<rparr>"

definition sem_stuck_board :: sem_studio where
  "sem_stuck_board = \<lparr>ctl = \<lparr>state_sem = [THINKING, EDITING, EDITING, THINKING, THINKING],
       sem_editors = [0, 0, 0, 0, 0], mutex_sem = 1, boards = [1, 0, 0, 0, 1]\<rparr>,
     pcs = [Planning, AwaitRight, Working, Planning, Planning]\<rparr>"

section \<open>Catalog: ecommerce\_monitor.c\<close>

definition NUM_READERS :: nat where
  "NUM_READERS = 5"

definition NUM_WRITERS :: nat where
  "NUM_WRITERS = 2"

definition MAX_PRODUCTS :: nat where
  "MAX_PRODUCTS = 100"

text \<open>The struct \<open>Product\<close>; its field \<open>id\<close> is \<open>prod_id\<close>. The stock is a 32-bit \<open>int\<close>,
  read with \<open>sint\<close>; an addition that overflows wraps round. The price is a \<open>float\<close> in
  the source and a real number here, so rounding is not modelled; nothing below depends
  on the price.\<close>

record Product =
  prod_id :: int
  price :: real
  stock :: "32 word"

text \<open>The struct \<open>CatalogMonitor\<close> without its mutex and condition variables; the field
  \<open>should_stop\<close> is \<open>catalog_should_stop\<close> here. The three counters count threads, so
  they are modelled as unbounded integers.\<close>

record CatalogMonitor =
  products :: "Product list"
  num_readers :: int
  num_writers :: int
  writer_waiting :: int
  catalog_should_stop :: int

text \<open>The catalog is filled from \<open>rand()\<close>, two calls for each product; \<open>rnd k\<close> stands for
  the result of call number \<open>k\<close>, a number from 0 to \<open>RAND_MAX\<close>.\<close>

definition initial_products :: "(nat \<Rightarrow> nat) \<Rightarrow> Product list" where
  "initial_products rnd =
     map (\<lambda>i. \<lparr>prod_id = int i + 1, price = 10 + real (rnd (2 * i) mod 1000),
               stock = of_nat (rnd (2 * i + 1) mod 50)\<rparr>) [0..<MAX_PRODUCTS]"

text \<open>\<open>monitor_init\<close> of the catalog.\<close>

definition catalog_monitor_init :: "(nat \<Rightarrow> nat) \<Rightarrow> CatalogMonitor" where
  "catalog_monitor_init rnd = \<lparr>products = initial_products rnd, num_readers = 0,
     num_writers = 0, writer_waiting = 0, catalog_should_stop = 0\<rparr>"

definition start_read :: "CatalogMonitor \<Rightarrow> CatalogMonitor option" where
  "start_read c =
     (if 0 < num_writers c \<or> 0 < writer_waiting c then None
      else Some (c\<lparr>num_readers := num_readers c + 1\<rparr>))"

definition end_read :: "CatalogMonitor \<Rightarrow> CatalogMonitor" where
  "end_read c = c\<lparr>num_readers := num_readers c - 1\<rparr>"

text \<open>\<open>start_write\<close> in two parts: the registration before the wait loop, and the loop with
  the statements after it. The second part is \<open>None\<close> while the loop condition holds.\<close>

definition start_write_register :: "CatalogMonitor \<Rightarrow> CatalogMonitor" where
  "start_write_register c = c\<lparr>writer_waiting := writer_waiting c + 1\<rparr>"

definition start_write_proceed :: "CatalogMonitor \<Rightarrow> CatalogMonitor option" where
  "start_write_proceed c =
     (if 0 < num_readers c \<or> 0 < num_writers c then None
      else Some (c\<lparr>writer_waiting := writer_waiting c - 1, num_writers := num_writers c + 1\<rparr>))"

definition end_write :: "CatalogMonitor \<Rightarrow> CatalogMonitor" where
  "end_write c = c\<lparr>num_writers := num_writers c - 1\<rparr>"

text \<open>The update in the body of \<open>writer\<close>, the same text in \<open>ecommerce_monitor.c\<close> and in
  \<open>ecommerce_mutex.c\<close>: first on one product, then on the catalog, with the three results
  \<open>r1\<close>, \<open>r2\<close>, \<open>r3\<close> of \<open>rand()\<close> that choose the product and the two changes.\<close>

definition update_product :: "Product \<Rightarrow> int \<Rightarrow> int \<Rightarrow> Product" where
  "update_product p price_change stock_change =
     (let p1 = p\<lparr>price := price p * (1 + real_of_int price_change / 100)\<rparr>;
          p2 = p1\<lparr>stock := stock p1 + word_of_int stock_change\<rparr>
      in if sint (stock p2) < 0 then p2\<lparr>stock := 0\<rparr> else p2)"

definition writer_update :: "Product list \<Rightarrow> nat \<Rightarrow> nat \<Rightarrow> nat \<Rightarrow> Product list" where
  "writer_update ps r1 r2 r3 =
     (let product_id = r1 mod MAX_PRODUCTS;
          price_change = int (r2 mod 20) - 10;
          stock_change = int (r3 mod 10) - 3
      in ps[product_id := update_product (ps ! product_id) price_change stock_change])"

text \<open>The threads \<open>reader\<close> and \<open>writer\<close>. A reader is outside or between \<open>start_read\<close> and
  \<open>end_read\<close>. A writer is outside, asleep in the loop of \<open>start_write\<close>, past
  \<open>start_write\<close>, or past its update with \<open>end_write\<close> next.\<close>

datatype reader_pc = ReadIdle | Reading

datatype writer_pc = WriteIdle | WriteWaiting | Writing | Written

record catalog_sys =
  cat :: CatalogMonitor
  readers :: "reader_pc list"
  writers :: "writer_pc list"

definition catalog_sys_init :: "(nat \<Rightarrow> nat) \<Rightarrow> catalog_sys" where
  "catalog_sys_init rnd = \<lparr>cat = catalog_monitor_init rnd,
     readers = replicate NUM_READERS ReadIdle, writers = replicate NUM_WRITERS WriteIdle\<rparr>"

text \<open>One step of a thread: the next monitor call of reader \<open>i\<close> or of writer \<open>j\<close>, or the
  update of writer \<open>j\<close>. \<open>None\<close> when the call would sleep or the thread is not at that
  place. A writer that finds the loop condition of \<open>start_write\<close> true stays registered and
  sleeps; it goes on with a later step, when the condition is false.\<close>

datatype catalog_event = ReaderStep nat | WriterStep nat | WriterUpdate nat nat nat nat

fun catalog_step :: "catalog_event \<Rightarrow> catalog_sys \<Rightarrow> catalog_sys option" where
  "catalog_step (ReaderStep i) y =
     (if NUM_READERS \<le> i then None
      else case readers y ! i of
        ReadIdle \<Rightarrow>
          map_option (\<lambda>c. y\<lparr>cat := c, readers := (readers y)[i := Reading]\<rparr>) (start_read (cat y))
      | Reading \<Rightarrow> Some (y\<lparr>cat := end_read (cat y), readers := (readers y)[i := ReadIdle]\<rparr>))"
| "catalog_step (WriterStep j) y =
     (if NUM_WRITERS \<le> j then None
      else case writers y ! j of
        WriteIdle \<Rightarrow>
          (let c1 = start_write_register (cat y)
           in case start_write_proceed c1 of
                None \<Rightarrow> Some (y\<lparr>cat := c1, writers := (writers y)[j := WriteWaiting]\<rparr>)
              | Some c2 \<Rightarrow> Some (y\<lparr>cat := c2, writers := (writers y)[j := Writing]\<rparr>))
      | WriteWaiting \<Rightarrow>
          map_option (\<lambda>c. y\<lparr>cat := c, writers := (writers y)[j := Writing]\<rparr>)
            (start_write_proceed (cat y))
      | Writing \<Rightarrow> None
      | Written \<Rightarrow> Some (y\<lparr>cat := end_write (cat y), writers := (writers y)[j := WriteIdle]\<rparr>))"
| "catalog_step (WriterUpdate j r1 r2 r3) y =
     (if NUM_WRITERS \<le> j then None
      else case writers y ! j of
        Writing \<Rightarrow>
          Some (y\<lparr>cat := (cat y)\<lparr>products := writer_update (products (cat y)) r1 r2 r3\<rparr>,
                  writers := (writers y)[j := Written]\<rparr>)
      | _ \<Rightarrow> None)"

fun catalog_run :: "catalog_event list \<Rightarrow> catalog_sys \<Rightarrow> catalog_sys option" where
  "catalog_run [] y = Some y"
| "catalog_run (e # es) y =
     (case catalog_step e y of None \<Rightarrow> None | Some y' \<Rightarrow> catalog_run es y')"

text \<open>The three counters of the gate.\<close>

definition gate_counters :: "catalog_sys \<Rightarrow> int \<times> int \<times> int" where
  "gate_counters y = (num_readers (cat y), num_writers (cat y), writer_waiting (cat y))"

text \<open>The invariant of the counters alone, and the invariant that ties them to the threads:
  each counter is the number of threads at the matching place.\<close>

definition gate_inv :: "CatalogMonitor \<Rightarrow> bool" where
  "gate_inv c \<longleftrightarrow>
     0 \<le> num_readers c \<and> 0 \<le> writer_waiting c \<and> 0 \<le> num_writers c \<and> num_writers c \<le> 1 \<and>
     (num_readers c = 0 \<or> num_writers c = 0)"

definition catalog_inv :: "catalog_sys \<Rightarrow> bool" where
  "catalog_inv y \<longleftrightarrow>
     length (readers y) = NUM_READERS \<and> length (writers y) = NUM_WRITERS \<and>
     num_readers (cat y) = int (count_list (readers y) Reading) \<and>
     num_writers (cat y) = int (count_list (writers y) Writing + count_list (writers y) Written) \<and>
     writer_waiting (cat y) = int (count_list (writers y) WriteWaiting) \<and>
     gate_inv (cat y)"

text \<open>A source of \<open>rand()\<close> results for examples.\<close>

definition zero_rand :: "nat \<Rightarrow> nat" where
  "zero_rand k = 0"

definition two_rand :: "nat \<Rightarrow> nat" where
  "two_rand k = 2"

text \<open>The catalog system, in both variants, with writer 0 inside its write section and
  every stock at 2.\<close>

definition writing_sys :: catalog_sys where
  "writing_sys = \<lparr>cat = (catalog_monitor_init two_rand)\<lparr>num_writers := 1\<rparr>,
     readers = replicate NUM_READERS ReadIdle, writers = [Writing, WriteIdle]\<rparr>"

text \<open>The four monitor calls made one after the other with no regard to which thread makes
  which call: \<open>start_read\<close>, \<open>end_read\<close>, \<open>start_write\<close> and \<open>end_write\<close>. A call that
  would sleep in its wait loop is \<open>None\<close>.\<close>

datatype gate_call = BeginRead | EndRead | BeginWrite | EndWrite

fun gate_call_step :: "gate_call \<Rightarrow> CatalogMonitor \<Rightarrow> CatalogMonitor option" where
  "gate_call_step BeginRead c = start_read c"
| "gate_call_step EndRead c = Some (end_read c)"
| "gate_call_step BeginWrite c = start_write_proceed (start_write_register c)"
| "gate_call_step EndWrite c = Some (end_write c)"

fun gate_calls :: "gate_call list \<Rightarrow> CatalogMonitor \<Rightarrow> CatalogMonitor option" where
  "gate_calls [] c = Some c"
| "gate_calls (g # gs) c =
     (case gate_call_step g c of None \<Rightarrow> None | Some c' \<Rightarrow> gate_calls gs c')"

definition monitor_counters :: "CatalogMonitor \<Rightarrow> int \<times> int \<times> int" where
  "monitor_counters c = (num_readers c, num_writers c, writer_waiting c)"

section \<open>Catalog: ecommerce\_mutex.c\<close>

text \<open>The struct \<open>Catalog\<close>: a mutex is \<open>True\<close> while locked. The fields \<open>products\<close> and
  \<open>num_readers\<close> carry the suffix \<open>_mx\<close>.\<close>

record Catalog =
  products_mx :: "Product list"
  num_readers_mx :: int
  mutex :: bool
  write_mutex :: bool

definition init_catalog :: "(nat \<Rightarrow> nat) \<Rightarrow> Catalog" where
  "init_catalog rnd = \<lparr>products_mx = initial_products rnd, num_readers_mx = 0,
     mutex = False, write_mutex = False\<rparr>"

text \<open>The threads \<open>reader\<close> and \<open>writer\<close> of the mutex variant. A reader is outside; or, as
  the first reader, inside its entry protocol with \<open>mutex\<close> locked and
  \<open>pthread_mutex_lock(&catalog.write_mutex)\<close> next; or reading. A writer is outside or
  holds \<open>write_mutex\<close>. Locking a locked mutex sleeps: the step is \<open>None\<close>.\<close>

datatype mx_reader_pc = MxIdle | MxFirst | MxReading

datatype mx_writer_pc = MxOut | MxWriting

record mx_sys =
  shared :: Catalog
  mx_readers :: "mx_reader_pc list"
  mx_writers :: "mx_writer_pc list"

definition mx_sys_init :: "(nat \<Rightarrow> nat) \<Rightarrow> mx_sys" where
  "mx_sys_init rnd = \<lparr>shared = init_catalog rnd,
     mx_readers = replicate NUM_READERS MxIdle, mx_writers = replicate NUM_WRITERS MxOut\<rparr>"

text \<open>The entry protocol of \<open>reader\<close> from \<open>pthread_mutex_lock(&catalog.mutex)\<close> on: the new
  catalog and where the reader stands afterwards.\<close>

definition reader_entry :: "Catalog \<Rightarrow> (Catalog \<times> mx_reader_pc) option" where
  "reader_entry k =
     (if mutex k then None
      else
        (let k1 = k\<lparr>num_readers_mx := num_readers_mx k + 1\<rparr>
         in if num_readers_mx k1 = 1
            then (if write_mutex k1 then Some (k1\<lparr>mutex := True\<rparr>, MxFirst)
                  else Some (k1\<lparr>write_mutex := True\<rparr>, MxReading))
            else Some (k1, MxReading)))"

text \<open>The first reader once \<open>write_mutex\<close> is free: it locks it and unlocks \<open>mutex\<close>.\<close>

definition reader_first :: "Catalog \<Rightarrow> Catalog option" where
  "reader_first k = (if write_mutex k then None else Some (k\<lparr>write_mutex := True, mutex := False\<rparr>))"

text \<open>The exit protocol of \<open>reader\<close>.\<close>

definition reader_exit :: "Catalog \<Rightarrow> Catalog option" where
  "reader_exit k =
     (if mutex k then None
      else
        (let k1 = k\<lparr>num_readers_mx := num_readers_mx k - 1\<rparr>
         in Some (if num_readers_mx k1 = 0 then k1\<lparr>write_mutex := False\<rparr> else k1)))"

definition writer_entry :: "Catalog \<Rightarrow> Catalog option" where
  "writer_entry k = (if write_mutex k then None else Some (k\<lparr>write_mutex := True\<rparr>))"

text \<open>The critical section of \<open>writer\<close> with the unlock that ends it.\<close>

definition writer_section :: "Catalog \<Rightarrow> nat \<Rightarrow> nat \<Rightarrow> nat \<Rightarrow> Catalog" where
  "writer_section k r1 r2 r3 =
     k\<lparr>products_mx := writer_update (products_mx k) r1 r2 r3, write_mutex := False\<rparr>"

datatype mx_event = MxReader nat | MxWriter nat nat nat nat

fun mx_step :: "mx_event \<Rightarrow> mx_sys \<Rightarrow> mx_sys option" where
  "mx_step (MxReader i) z =
     (if NUM_READERS \<le> i then None
      else case mx_readers z ! i of
        MxIdle \<Rightarrow>
          map_option (\<lambda>(k, pc). z\<lparr>shared := k, mx_readers := (mx_readers z)[i := pc]\<rparr>)
            (reader_entry (shared z))
      | MxFirst \<Rightarrow>
          map_option (\<lambda>k. z\<lparr>shared := k, mx_readers := (mx_readers z)[i := MxReading]\<rparr>)
            (reader_first (shared z))
      | MxReading \<Rightarrow>
          map_option (\<lambda>k. z\<lparr>shared := k, mx_readers := (mx_readers z)[i := MxIdle]\<rparr>)
            (reader_exit (shared z)))"
| "mx_step (MxWriter j r1 r2 r3) z =
     (if NUM_WRITERS \<le> j then None
      else case mx_writers z ! j of
        MxOut \<Rightarrow>
          map_option (\<lambda>k. z\<lparr>shared := k, mx_writers := (mx_writers z)[j := MxWriting]\<rparr>)
            (writer_entry (shared z))
      | MxWriting \<Rightarrow>
          Some (z\<lparr>shared := writer_section (shared z) r1 r2 r3,
                  mx_writers := (mx_writers z)[j := MxOut]\<rparr>))"

fun mx_run :: "mx_event list \<Rightarrow> mx_sys \<Rightarrow> mx_sys option" where
  "mx_run [] z = Some z"
| "mx_run (e # es) z = (case mx_step e z of None \<Rightarrow> None | Some z' \<Rightarrow> mx_run es z')"

text \<open>The invariant of the mutex variant: \<open>num_readers\<close> counts the readers past the
  increment, and \<open>mutex\<close> is locked between steps exactly while a first reader waits for
  \<open>write_mutex\<close>, which is then the only reader counted.\<close>

definition mx_inv :: "mx_sys \<Rightarrow> bool" where
  "mx_inv z \<longleftrightarrow>
     length (mx_readers z) = NUM_READERS \<and> length (mx_writers z) = NUM_WRITERS \<and>
     num_readers_mx (shared z) =
       int (count_list (mx_readers z) MxFirst + count_list (mx_readers z) MxReading) \<and>
     mutex (shared z) = (0 < count_list (mx_readers z) MxFirst) \<and>
     (if mutex (shared z) then num_readers_mx (shared z) = 1 else True)"

definition mx_writing_sys :: mx_sys where
  "mx_writing_sys = \<lparr>shared = (init_catalog two_rand)\<lparr>write_mutex := True\<rparr>,
     mx_readers = replicate NUM_READERS MxIdle, mx_writers = [MxWriting, MxOut]\<rparr>"

section \<open>Bounded buffer: properties\<close>

lemma c_rem_nonneg: "0 \<le> a \<Longrightarrow> 0 < b \<Longrightarrow> c_rem a b = a mod b"
  by (cases "a = 0") (simp_all add: c_rem_def)

lemma mod_distinct:
  fixes a k c n :: int
  assumes "0 \<le> k" "k < c" "c < n"
  shows "(a + k) mod n \<noteq> (a + c) mod n"
proof
  assume "(a + k) mod n = (a + c) mod n"
  then have "(a + c) mod n = (a + k) mod n" by simp
  then have "n dvd (a + c) - (a + k)"
    by (simp only: mod_eq_dvd_iff)
  then have "n dvd c - k" by simp
  moreover from assms have "0 < c - k" "c - k < n" by simp_all
  ultimately show False using zdvd_not_zless by blast
qed

lemma length_queued: "length (queued m) = nat (count m)"
  by (simp add: queued_def)

lemma monitor_insert_Some:
  assumes "should_stop m = 0" "monitor_insert m d = Some m'"
  shows "count m \<noteq> BUFFER_SIZE \<and>
         m' = m\<lparr>buffer := (buffer m)[nat (in_ix m) := d],
                in_ix := c_rem (in_ix m + 1) BUFFER_SIZE, count := count m + 1\<rparr>"
  using assms by (auto simp: monitor_insert_def split: if_splits)

lemma monitor_remove_Some:
  assumes "should_stop m = 0" "active_producers m \<noteq> 0" "monitor_remove m = Some (m', r, x)"
  shows "count m \<noteq> 0 \<and> r = 1 \<and> x = Some (buffer m ! nat (out_ix m)) \<and>
         m' = m\<lparr>out_ix := c_rem (out_ix m + 1) BUFFER_SIZE, count := count m - 1\<rparr>"
  using assms by (auto simp: monitor_remove_def split: if_splits)

lemma monitor_insert_inv:
  assumes inv: "channel_inv m" and "should_stop m = 0" and "monitor_insert m d = Some m'"
  shows "channel_inv m' \<and> should_stop m' = 0 \<and> active_producers m' = active_producers m \<and>
         count m' = count m + 1"
proof -
  from assms monitor_insert_Some have ne: "count m \<noteq> BUFFER_SIZE"
    and m': "m' = m\<lparr>buffer := (buffer m)[nat (in_ix m) := d],
                    in_ix := c_rem (in_ix m + 1) BUFFER_SIZE, count := count m + 1\<rparr>"
    by blast+
  from inv have i: "0 \<le> in_ix m" "in_ix m = (out_ix m + count m) mod BUFFER_SIZE"
    and c: "0 \<le> count m" "count m \<le> BUFFER_SIZE"
    and o: "0 \<le> out_ix m" "out_ix m < BUFFER_SIZE"
    and l: "int (length (buffer m)) = BUFFER_SIZE"
    by (simp_all add: channel_inv_def)
  have B: "0 < BUFFER_SIZE" by (simp add: BUFFER_SIZE_def)
  from i(1) B have r: "c_rem (in_ix m + 1) BUFFER_SIZE = (in_ix m + 1) mod BUFFER_SIZE"
    by (intro c_rem_nonneg) simp_all
  have "(in_ix m + 1) mod BUFFER_SIZE = ((out_ix m + count m) mod BUFFER_SIZE + 1) mod BUFFER_SIZE"
    using i(2) by simp
  also have "\<dots> = (out_ix m + count m + 1) mod BUFFER_SIZE"
    by (rule mod_add_left_eq)
  finally have n: "(in_ix m + 1) mod BUFFER_SIZE = (out_ix m + (count m + 1)) mod BUFFER_SIZE"
    by (simp add: add.assoc)
  from B have b: "0 \<le> (in_ix m + 1) mod BUFFER_SIZE" "(in_ix m + 1) mod BUFFER_SIZE < BUFFER_SIZE"
    by simp_all
  from c ne have "count m + 1 \<le> BUFFER_SIZE" by simp
  with c o l b n show ?thesis
    using assms(2) by (simp add: m' r channel_inv_def)
qed

lemma monitor_insert_queued:
  assumes inv: "channel_inv m" and "should_stop m = 0" and "monitor_insert m d = Some m'"
  shows "queued m' = queued m @ [d]"
proof -
  from assms monitor_insert_Some have ne: "count m \<noteq> BUFFER_SIZE"
    and m': "m' = m\<lparr>buffer := (buffer m)[nat (in_ix m) := d],
                    in_ix := c_rem (in_ix m + 1) BUFFER_SIZE, count := count m + 1\<rparr>"
    by blast+
  from inv have i: "0 \<le> in_ix m" "in_ix m < BUFFER_SIZE"
      "in_ix m = (out_ix m + count m) mod BUFFER_SIZE"
    and c0: "0 \<le> count m" and c1: "count m \<le> BUFFER_SIZE"
    and l: "int (length (buffer m)) = BUFFER_SIZE"
    by (simp_all add: channel_inv_def)
  from c1 ne have lt: "count m < BUFFER_SIZE" by simp
  have B: "0 < BUFFER_SIZE" by (simp add: BUFFER_SIZE_def)
  from c0 have n: "nat (count m + 1) = Suc (nat (count m))" by simp
  have old: "buffer m' ! nat ((out_ix m + int k) mod BUFFER_SIZE)
           = buffer m ! nat ((out_ix m + int k) mod BUFFER_SIZE)" if "k < nat (count m)" for k
  proof -
    from that c0 have "int k < count m" by simp
    with lt have "(out_ix m + int k) mod BUFFER_SIZE \<noteq> (out_ix m + count m) mod BUFFER_SIZE"
      by (intro mod_distinct) simp_all
    with i(3) have "(out_ix m + int k) mod BUFFER_SIZE \<noteq> in_ix m" by simp
    moreover from B have "0 \<le> (out_ix m + int k) mod BUFFER_SIZE" by simp
    ultimately have "nat ((out_ix m + int k) mod BUFFER_SIZE) \<noteq> nat (in_ix m)"
      using i(1) by simp
    then show ?thesis by (simp add: m')
  qed
  have new: "buffer m' ! nat ((out_ix m + int (nat (count m))) mod BUFFER_SIZE) = d"
  proof -
    from i(3) c0 have "(out_ix m + int (nat (count m))) mod BUFFER_SIZE = in_ix m"
      by simp
    moreover from i(1,2) l have "nat (in_ix m) < length (buffer m)"
      by linarith
    ultimately show ?thesis by (simp add: m')
  qed
  have "queued m' = map (\<lambda>k. buffer m' ! nat ((out_ix m + int k) mod BUFFER_SIZE)) [0..<nat (count m)]
          @ [buffer m' ! nat ((out_ix m + int (nat (count m))) mod BUFFER_SIZE)]"
    by (simp add: queued_def m' n)
  also have "\<dots> = queued m @ [d]"
    using old new by (simp add: queued_def)
  finally show ?thesis .
qed

lemma monitor_remove_inv:
  assumes inv: "channel_inv m" and "should_stop m = 0" and "active_producers m \<noteq> 0"
    and "monitor_remove m = Some (m', r, x)"
  shows "channel_inv m' \<and> should_stop m' = 0 \<and> active_producers m' = active_producers m \<and>
         count m' = count m - 1 \<and> r = 1 \<and> 0 < count m"
proof -
  from assms monitor_remove_Some have ne: "count m \<noteq> 0" and r: "r = 1"
    and m': "m' = m\<lparr>out_ix := c_rem (out_ix m + 1) BUFFER_SIZE, count := count m - 1\<rparr>"
    by blast+
  from inv have i: "0 \<le> in_ix m" "in_ix m < BUFFER_SIZE"
      "in_ix m = (out_ix m + count m) mod BUFFER_SIZE"
    and c: "0 \<le> count m" "count m \<le> BUFFER_SIZE"
    and o: "0 \<le> out_ix m"
    and l: "int (length (buffer m)) = BUFFER_SIZE"
    by (simp_all add: channel_inv_def)
  have B: "0 < BUFFER_SIZE" by (simp add: BUFFER_SIZE_def)
  from o B have o': "c_rem (out_ix m + 1) BUFFER_SIZE = (out_ix m + 1) mod BUFFER_SIZE"
    by (intro c_rem_nonneg) simp_all
  have "((out_ix m + 1) mod BUFFER_SIZE + (count m - 1)) mod BUFFER_SIZE
      = (out_ix m + 1 + (count m - 1)) mod BUFFER_SIZE"
    by (rule mod_add_left_eq)
  then have n: "in_ix m = ((out_ix m + 1) mod BUFFER_SIZE + (count m - 1)) mod BUFFER_SIZE"
    using i(3) by simp
  from B have b: "0 \<le> (out_ix m + 1) mod BUFFER_SIZE" "(out_ix m + 1) mod BUFFER_SIZE < BUFFER_SIZE"
    by simp_all
  from c ne have "0 < count m" by simp
  with c i(1,2) l b n r show ?thesis
    using assms(2) by (simp add: m' o' channel_inv_def)
qed

lemma monitor_remove_queued:
  assumes inv: "channel_inv m" and "should_stop m = 0" and "active_producers m \<noteq> 0"
    and "monitor_remove m = Some (m', r, x)"
  shows "x = Some (buffer m ! nat (out_ix m)) \<and> queued m = buffer m ! nat (out_ix m) # queued m'"
proof -
  from assms monitor_remove_Some have ne: "count m \<noteq> 0"
    and x: "x = Some (buffer m ! nat (out_ix m))"
    and m': "m' = m\<lparr>out_ix := c_rem (out_ix m + 1) BUFFER_SIZE, count := count m - 1\<rparr>"
    by blast+
  from inv have c: "0 \<le> count m" and o: "0 \<le> out_ix m" "out_ix m < BUFFER_SIZE"
    by (simp_all add: channel_inv_def)
  have B: "0 < BUFFER_SIZE" by (simp add: BUFFER_SIZE_def)
  from o B have o': "c_rem (out_ix m + 1) BUFFER_SIZE = (out_ix m + 1) mod BUFFER_SIZE"
    by (intro c_rem_nonneg) simp_all
  from c ne obtain n where n: "nat (count m) = Suc n" "nat (count m - 1) = n"
    by (cases "nat (count m)") auto
  have shift: "((out_ix m + 1) mod BUFFER_SIZE + int k) mod BUFFER_SIZE
             = (out_ix m + int (Suc k)) mod BUFFER_SIZE" for k
  proof -
    have "((out_ix m + 1) mod BUFFER_SIZE + int k) mod BUFFER_SIZE
        = ((out_ix m + 1) + int k) mod BUFFER_SIZE"
      by (rule mod_add_left_eq)
    also have "(out_ix m + 1) + int k = out_ix m + int (Suc k)" by simp
    finally show ?thesis .
  qed
  from o have h: "out_ix m mod BUFFER_SIZE = out_ix m"
    by simp
  have "queued m = buffer m ! nat (out_ix m)
          # map (\<lambda>k. buffer m ! nat ((out_ix m + int (Suc k)) mod BUFFER_SIZE)) [0..<n]"
    unfolding queued_def n(1) upt_conv_Cons[OF zero_less_Suc] 
    by (simp add: h map_Suc_upt[symmetric] del: upt_Suc)
  also have "map (\<lambda>k. buffer m ! nat ((out_ix m + int (Suc k)) mod BUFFER_SIZE)) [0..<n] = queued m'"
    unfolding queued_def m' by (simp add: o' n(2) shift del: of_nat_Suc)
  finally show ?thesis using x by simp
qed

lemma channel_run_sim:
  assumes "channel_inv m" "should_stop m = 0" "active_producers m \<noteq> 0"
    and "channel_run cs m = Some (m', outs)"
  shows "channel_inv m' \<and> should_stop m' = 0 \<and> active_producers m' \<noteq> 0 \<and>
         fifo_run cs (queued m) = Some (queued m', outs) \<and>
         queued m @ inserted cs = outs @ queued m'"
  using assms
proof (induction cs arbitrary: m outs)
  case Nil
  then show ?case by simp
next
  case (Cons c cs)
  show ?case
  proof (cases c)
    case (Insert d)
    from Cons.prems(4) Insert obtain m1 where s: "monitor_insert m d = Some m1"
      and r: "channel_run cs m1 = Some (m', outs)"
      by (auto split: option.splits)
    from monitor_insert_inv[OF Cons.prems(1,2) s] monitor_insert_queued[OF Cons.prems(1,2) s]
    have i1: "channel_inv m1" "should_stop m1 = 0" "active_producers m1 = active_producers m"
      "count m1 = count m + 1" "queued m1 = queued m @ [d]"
      by simp_all
    from Cons.prems(3) i1(3) have a1: "active_producers m1 \<noteq> 0" by simp
    from Cons.IH[OF i1(1,2) a1 r]
    have ih: "channel_inv m'" "should_stop m' = 0" "active_producers m' \<noteq> 0"
      "fifo_run cs (queued m1) = Some (queued m', outs)"
      "queued m1 @ inserted cs = outs @ queued m'"
      by simp_all
    from monitor_insert_Some[OF Cons.prems(2) s] Cons.prems(1)
    have "int (length (queued m)) \<noteq> BUFFER_SIZE"
      by (simp add: length_queued channel_inv_def)
    with ih i1(5) Insert show ?thesis by simp
  next
    case Remove
    from Cons.prems(4) Remove obtain m1 r x ys where s: "monitor_remove m = Some (m1, r, x)"
      and r2: "channel_run cs m1 = Some (m', ys)"
      and o: "outs = (if r = 1 then (case x of None \<Rightarrow> [] | Some d \<Rightarrow> [d]) else []) @ ys"
      by (auto split: option.splits)
    from monitor_remove_inv[OF Cons.prems(1,2,3) s] monitor_remove_queued[OF Cons.prems(1,2,3) s]
    have i1: "channel_inv m1" "should_stop m1 = 0" "active_producers m1 = active_producers m"
      "r = 1" "x = Some (buffer m ! nat (out_ix m))"
      "queued m = buffer m ! nat (out_ix m) # queued m1"
      by simp_all
    from Cons.prems(3) i1(3) have a1: "active_producers m1 \<noteq> 0" by simp
    from o i1(4,5) have eq: "outs = buffer m ! nat (out_ix m) # ys"
      by simp
    from Cons.IH[OF i1(1,2) a1 r2]
    have ih: "channel_inv m'" "should_stop m' = 0" "active_producers m' \<noteq> 0"
      "fifo_run cs (queued m1) = Some (queued m', ys)"
      "queued m1 @ inserted cs = ys @ queued m'"
      by simp_all
    with i1(6) eq Remove show ?thesis by simp
  qed
qed

lemma fifo_run_sim:
  assumes "channel_inv m" "should_stop m = 0" "active_producers m \<noteq> 0"
    and "fifo_run cs (queued m) = Some (q, outs)"
  shows "\<exists>m'. channel_run cs m = Some (m', outs) \<and> queued m' = q"
  using assms
proof (induction cs arbitrary: m outs)
  case Nil
  then show ?case by simp
next
  case (Cons c cs)
  show ?case
  proof (cases c)
    case (Insert d)
    from Cons.prems(4) Insert have nf: "int (length (queued m)) \<noteq> BUFFER_SIZE"
      and r: "fifo_run cs (queued m @ [d]) = Some (q, outs)"
      by (auto split: option.splits if_splits)
    from nf Cons.prems(1) have "count m \<noteq> BUFFER_SIZE"
      by (simp add: length_queued channel_inv_def)
    with Cons.prems(2) obtain m1 where s: "monitor_insert m d = Some m1"
      by (auto simp: monitor_insert_def)
    from monitor_insert_inv[OF Cons.prems(1,2) s] monitor_insert_queued[OF Cons.prems(1,2) s]
    have i1: "channel_inv m1" "should_stop m1 = 0" "active_producers m1 = active_producers m"
      "queued m1 = queued m @ [d]"
      by simp_all
    from Cons.prems(3) i1(3) have a1: "active_producers m1 \<noteq> 0" by simp
    from r i1(4) have "fifo_run cs (queued m1) = Some (q, outs)" by simp
    from Cons.IH[OF i1(1,2) a1 this] obtain m' where
      "channel_run cs m1 = Some (m', outs)" "queued m' = q" by blast
    with s Insert show ?thesis by simp
  next
    case Remove
    from Cons.prems(4) Remove obtain x q1 ys where q: "queued m = x # q1"
      and r: "fifo_run cs q1 = Some (q, ys)" and o: "outs = x # ys"
      by (auto split: option.splits list.splits)
    from q have "count m \<noteq> 0"
      using length_queued[of m] by auto
    then obtain m1 r1 x1 where s: "monitor_remove m = Some (m1, r1, x1)"
      by (auto simp: monitor_remove_def)
    from monitor_remove_inv[OF Cons.prems(1,2,3) s] monitor_remove_queued[OF Cons.prems(1,2,3) s]
    have i1: "channel_inv m1" "should_stop m1 = 0" "active_producers m1 = active_producers m"
      "r1 = 1" "x1 = Some (buffer m ! nat (out_ix m))"
      "queued m = buffer m ! nat (out_ix m) # queued m1"
      by simp_all
    from Cons.prems(3) i1(3) have a1: "active_producers m1 \<noteq> 0" by simp
    from q i1(6) have e: "x = buffer m ! nat (out_ix m)" "q1 = queued m1" by simp_all
    from r e have "fifo_run cs (queued m1) = Some (q, ys)" by simp
    from Cons.IH[OF i1(1,2) a1 this] obtain m' where
      "channel_run cs m1 = Some (m', ys)" "queued m' = q" by blast
    with s Remove i1(4,5) o e show ?thesis by simp
  qed
qed

lemma channel_init_inv:
  "channel_inv (monitor_init print_queue) \<and> should_stop (monitor_init print_queue) = 0 \<and>
   active_producers (monitor_init print_queue) \<noteq> 0 \<and> queued (monitor_init print_queue) = []"
  by (simp add: channel_inv_def monitor_init_def print_queue_def BUFFER_SIZE_def
      NUM_PRODUCERS_def queued_def)

lemma fill_ops_run: "channel_run fill_ops (monitor_init print_queue) = Some (full_queue, [])"
  by code_simp

text \<open>Claim C4 as written fails on the full buffer: after five insertions the counter is
  5 while \<open>in\<close> has wrapped round to \<open>out\<close>, so the difference of the indices modulo the
  capacity is 0.\<close>

theorem channel_accounting_counterexample:
  "channel_run fill_ops (monitor_init print_queue) = Some (full_queue, []) \<and>
   count full_queue = 5 \<and> (in_ix full_queue - out_ix full_queue) mod BUFFER_SIZE = 0"
  by (simp add: fill_ops_run) (simp add: full_queue_def)

text \<open>Claim C4, amended. After any sequence of completed \<open>monitor_insert\<close> and
  \<open>monitor_remove\<close> calls on the initialised monitor, the counter lies between 0 and
  \<open>BUFFER_SIZE\<close>, both indices lie in \<open>0..<BUFFER_SIZE\<close>, and \<open>(in - out) mod BUFFER_SIZE\<close>
  equals the counter, except on the full buffer, where the counter is \<open>BUFFER_SIZE\<close> and
  the difference is 0.\<close>

theorem channel_accounting:
  assumes "channel_run cs (monitor_init print_queue) = Some (m, outs)"
  shows "0 \<le> count m \<and> count m \<le> BUFFER_SIZE \<and>
         0 \<le> out_ix m \<and> out_ix m < BUFFER_SIZE \<and> 0 \<le> in_ix m \<and> in_ix m < BUFFER_SIZE \<and>
         (in_ix m - out_ix m) mod BUFFER_SIZE = (if count m = BUFFER_SIZE then 0 else count m)"
proof -
  from channel_init_inv channel_run_sim[OF _ _ _ assms] have inv: "channel_inv m"
    by blast
  then have i: "in_ix m = (out_ix m + count m) mod BUFFER_SIZE"
    and c: "0 \<le> count m" "count m \<le> BUFFER_SIZE"
    by (simp_all add: channel_inv_def)
  have "(in_ix m - out_ix m) mod BUFFER_SIZE
      = ((out_ix m + count m) mod BUFFER_SIZE - out_ix m) mod BUFFER_SIZE"
    using i by simp
  also have "\<dots> = (out_ix m + count m - out_ix m) mod BUFFER_SIZE"
    by (rule mod_diff_left_eq)
  also have "\<dots> = count m mod BUFFER_SIZE" by simp
  also have "\<dots> = (if count m = BUFFER_SIZE then 0 else count m)"
    using c by simp
  finally show ?thesis using inv by (simp add: channel_inv_def)
qed

theorem channel_accounting_witness:
  "channel_run fill_ops (monitor_init print_queue) = Some (full_queue, []) \<and>
   (in_ix full_queue - out_ix full_queue) mod BUFFER_SIZE = 0 \<and> count full_queue = BUFFER_SIZE"
  using channel_accounting[OF fill_ops_run] fill_ops_run
  by (simp add: full_queue_def BUFFER_SIZE_def)

lemma drain_ops_run:
  "channel_run drain_ops (monitor_init print_queue) = Some (drained_queue, [numbered 1, numbered 2])"
  by code_simp

text \<open>Claim C5. Run by one sequential caller, the monitor behaves as a first-in first-out
  queue of capacity \<open>BUFFER_SIZE\<close>: a sequence of calls completes on the monitor exactly
  when it completes on the reference queue, it hands out the same documents in the same
  order, and the occupied slots hold the reference queue's content. The documents handed
  out followed by those still queued are the inserted documents in insertion order, so
  every removed document was inserted before and removals follow the insertion order.\<close>

theorem channel_fifo:
  "map_option (\<lambda>(m, outs). (queued m, outs)) (channel_run cs (monitor_init print_queue))
     = fifo_run cs [] \<and>
   (\<forall>m outs. channel_run cs (monitor_init print_queue) = Some (m, outs) \<longrightarrow>
      inserted cs = outs @ queued m)"
proof -
  let ?i = "monitor_init print_queue"
  from channel_init_inv have inv: "channel_inv ?i" "should_stop ?i = 0" "active_producers ?i \<noteq> 0"
    and q: "queued ?i = []"
    by simp_all
  have fwd: "fifo_run cs [] = Some (queued m, outs) \<and> inserted cs = outs @ queued m"
    if "channel_run cs ?i = Some (m, outs)" for m outs
    using channel_run_sim[OF inv that] q by simp
  have bwd: "\<exists>m. channel_run cs ?i = Some (m, outs) \<and> queued m = q'"
    if "fifo_run cs [] = Some (q', outs)" for q' outs
    using fifo_run_sim[OF inv, of cs q' outs] that q by simp
  have "map_option (\<lambda>(m, outs). (queued m, outs)) (channel_run cs ?i) = fifo_run cs []"
  proof (cases "channel_run cs ?i")
    case None
    show ?thesis
    proof (cases "fifo_run cs []")
      case None
      with \<open>channel_run cs ?i = None\<close> show ?thesis by simp
    next
      case (Some r)
      with bwd[of "fst r" "snd r"] \<open>channel_run cs ?i = None\<close> show ?thesis by simp
    qed
  next
    case (Some r)
    with fwd[of "fst r" "snd r"] show ?thesis by (simp add: case_prod_beta)
  qed
  with fwd show ?thesis by blast
qed

theorem channel_fifo_witness:
  "channel_run drain_ops (monitor_init print_queue) = Some (drained_queue, [numbered 1, numbered 2]) \<and>
   fifo_run drain_ops [] = Some ([numbered 3], [numbered 1, numbered 2]) \<and>
   inserted drain_ops = [numbered 1, numbered 2] @ queued drained_queue"
proof -
  have q: "queued drained_queue = [numbered 3]" by code_simp
  from channel_fifo[of drain_ops] drain_ops_run q show ?thesis by simp
qed

text \<open>Claim C7. On an empty buffer whose stop flag is set, or whose producers have all
  finished, \<open>monitor_remove\<close> returns 0, stores no document and leaves the monitor as it
  was. On a buffer with a positive counter it returns 1 with the document of slot \<open>out\<close>,
  advances \<open>out\<close> by one modulo \<open>BUFFER_SIZE\<close> and decrements the counter.\<close>

theorem monitor_remove_closed:
  "(count m = 0 \<and> (should_stop m \<noteq> 0 \<or> active_producers m = 0) \<longrightarrow>
      monitor_remove m = Some (m, 0, None)) \<and>
   (0 < count m \<longrightarrow>
      monitor_remove m =
        Some (m\<lparr>out_ix := c_rem (out_ix m + 1) BUFFER_SIZE, count := count m - 1\<rparr>,
              1, Some (buffer m ! nat (out_ix m))))"
  by (simp add: monitor_remove_def)

theorem monitor_remove_closed_witness:
  "count stopped_queue = 0 \<and> should_stop stopped_queue \<noteq> 0 \<and>
   monitor_remove stopped_queue = Some (stopped_queue, 0, None) \<and>
   count finished_queue = 0 \<and> active_producers finished_queue = 0 \<and>
   monitor_remove finished_queue = Some (finished_queue, 0, None) \<and>
   0 < count full_queue \<and>
   monitor_remove full_queue = Some (full_queue\<lparr>out_ix := 1, count := 4\<rparr>, 1, Some (numbered 1))"
proof -
  have s: "count stopped_queue = 0" "should_stop stopped_queue \<noteq> 0"
    by (simp_all add: stopped_queue_def monitor_init_def)
  have f: "count finished_queue = 0" "active_producers finished_queue = 0"
    by (simp_all add: finished_queue_def monitor_init_def)
  have q: "0 < count full_queue" "out_ix full_queue = 0" "count full_queue = 5"
    "buffer full_queue ! 0 = numbered 1"
    by (simp_all add: full_queue_def)
  have r: "c_rem 1 BUFFER_SIZE = 1" by (simp add: c_rem_def BUFFER_SIZE_def)
  from monitor_remove_closed[of stopped_queue] monitor_remove_closed[of finished_queue]
    monitor_remove_closed[of full_queue] s f q r
  show ?thesis by simp
qed

text \<open>Claim C10. A \<open>monitor_insert\<close> that stores its document writes slot \<open>in\<close>,
  advances \<open>in\<close> and increments the counter; every other slot, \<open>out\<close>, the number of
  active producers and the stop flag keep their values. With the stop flag set the call
  returns the monitor unchanged.\<close>

theorem monitor_insert_frame:
  "(should_stop m \<noteq> 0 \<longrightarrow> monitor_insert m d = Some m) \<and>
   (should_stop m = 0 \<and> count m \<noteq> BUFFER_SIZE \<longrightarrow>
      (\<exists>m'. monitor_insert m d = Some m' \<and>
         buffer m' = (buffer m)[nat (in_ix m) := d] \<and>
         (\<forall>k. k \<noteq> nat (in_ix m) \<longrightarrow> buffer m' ! k = buffer m ! k) \<and>
         length (buffer m') = length (buffer m) \<and>
         in_ix m' = c_rem (in_ix m + 1) BUFFER_SIZE \<and>
         count m' = count m + 1 \<and>
         out_ix m' = out_ix m \<and>
         active_producers m' = active_producers m \<and>
         should_stop m' = should_stop m))"
  by (simp add: monitor_insert_def)

theorem monitor_insert_frame_witness:
  "should_stop stopped_queue \<noteq> 0 \<and>
   monitor_insert stopped_queue (numbered 7) = Some stopped_queue \<and>
   should_stop (monitor_init print_queue) = 0 \<and> count (monitor_init print_queue) \<noteq> BUFFER_SIZE \<and>
   monitor_insert (monitor_init print_queue) (numbered 7) =
     Some ((monitor_init print_queue)\<lparr>buffer :=
         [numbered 7, zero_document, zero_document, zero_document, zero_document],
       in_ix := 1, count := 1\<rparr>)"
proof -
  have s: "should_stop stopped_queue \<noteq> 0"
    by (simp add: stopped_queue_def monitor_init_def)
  have i: "should_stop (monitor_init print_queue) = 0"
    "count (monitor_init print_queue) \<noteq> BUFFER_SIZE"
    by (simp_all add: monitor_init_def BUFFER_SIZE_def)
  have e: "monitor_insert (monitor_init print_queue) (numbered 7) =
     Some ((monitor_init print_queue)\<lparr>buffer :=
         [numbered 7, zero_document, zero_document, zero_document, zero_document],
       in_ix := 1, count := 1\<rparr>)"
    by code_simp
  from monitor_insert_frame[of stopped_queue "numbered 7"]
    monitor_insert_frame[of "monitor_init print_queue" "numbered 7"] s i e
  show ?thesis by simp
qed


section \<open>Board ring: properties\<close>

lemma less5: "i < (5::nat) \<Longrightarrow> i = 0 \<or> i = 1 \<or> i = 2 \<or> i = 3 \<or> i = 4"
  by arith

lemma ring_arith:
  assumes "i < 5"
  shows "(i + 1) mod 5 < (5::nat)" and "(i + 5 - 1) mod 5 < (5::nat)"
    and "(i + 1) mod 5 \<noteq> i" and "(i + 5 - 1) mod 5 \<noteq> i"
    and "((i + 1) mod 5 + 5 - 1) mod 5 = i" and "((i + 5 - 1) mod 5 + 1) mod 5 = i"
  using less5[OF assms] by auto

lemma studio_inv_iff:
  "studio_inv s \<longleftrightarrow>
     length (state s) = 5 \<and> length (board_in_use s) = 5 \<and>
     (\<forall>b<5. board_in_use s ! b =
        (if state s ! b = EDITING \<or> state s ! ((b + 5 - 1) mod 5) = EDITING then 1 else 0)) \<and>
     (\<forall>i<5. \<not> (state s ! i = EDITING \<and> state s ! ((i + 1) mod 5) = EDITING))"
  unfolding studio_inv_def list_all_iff NUM_EDITORS_def NUM_BOARDS_def set_upt Ball_def
    atLeastLessThan_iff
  by (intro arg_cong2[where f="(\<and>)"] refl) (simp_all only: le0 simp_thms)

lemma studio_inv_hungry:
  assumes inv: "studio_inv s" and i: "i < 5" and ne: "state s ! i \<noteq> EDITING"
  shows "studio_inv (s\<lparr>state := (state s)[i := HUNGRY]\<rparr>)"
proof -
  from inv have len: "length (state s) = 5" by (simp add: studio_inv_iff)
  have ed: "((state s)[i := HUNGRY] ! k = EDITING) = (state s ! k = EDITING)" if "k < 5" for k
    using that len i ne by (cases "k = i") simp_all
  from inv show ?thesis
    unfolding studio_inv_iff by (simp add: ed ring_arith)
qed

lemma studio_inv_try_to_edit:
  assumes inv: "studio_inv s" and i: "i < 5"
  shows "studio_inv (try_to_edit s i)"
proof (cases "can_edit s i")
  case False
  with inv show ?thesis by (simp add: try_to_edit_def)
next
  case True
  let ?R = "(i + 1) mod 5" and ?L = "(i + 5 - 1) mod 5"
  let ?st = "(state s)[i := EDITING]" and ?fl = "(board_in_use s)[i := 1, ?R := 1]"
  from inv have len: "length (state s) = 5" "length (board_in_use s) = 5"
    and fl: "\<And>b. b < 5 \<Longrightarrow> board_in_use s ! b =
        (if state s ! b = EDITING \<or> state s ! ((b + 5 - 1) mod 5) = EDITING then 1 else 0)"
    and ex: "\<And>k. k < 5 \<Longrightarrow> \<not> (state s ! k = EDITING \<and> state s ! ((k + 1) mod 5) = EDITING)"
    by (simp_all add: studio_inv_iff)
  from True have free: "board_in_use s ! i = 0" "board_in_use s ! ?R = 0"
    by (simp_all add: can_edit_def NUM_BOARDS_def)
  from free(1) fl[OF i] have n1: "state s ! i \<noteq> EDITING" "state s ! ?L \<noteq> EDITING"
    by (auto split: if_splits)
  from free(2) fl[OF ring_arith(1)[OF i]] have n2: "state s ! ?R \<noteq> EDITING"
    by (auto split: if_splits)
  have ed: "(?st ! k = EDITING) = (k = i \<or> state s ! k = EDITING)" if "k < 5" for k
    using that len by (cases "k = i") simp_all
  have flv: "?fl ! b = (if b = i \<or> b = ?R then 1 else board_in_use s ! b)" if "b < 5" for b
    using that len i ring_arith(1)[OF i] by (simp add: nth_list_update)
  have g1: "?fl ! b = (if ?st ! b = EDITING \<or> ?st ! ((b + 5 - 1) mod 5) = EDITING then 1 else 0)"
    if b: "b < 5" for b
  proof -
    have "((b + 5 - 1) mod 5 = i) = (b = ?R)"
      using ring_arith(5)[OF i] ring_arith(6)[OF b] by auto
    then show ?thesis
      using flv[OF b] fl[OF b] ed[OF b] ed[OF ring_arith(2)[OF b]] by simp
  qed
  have g2: "\<not> (?st ! k = EDITING \<and> ?st ! ((k + 1) mod 5) = EDITING)" if k: "k < 5" for k
  proof -
    have "((k + 1) mod 5 = i) = (k = ?L)"
      using ring_arith(6)[OF i] ring_arith(5)[OF k] by auto
    then show ?thesis
      using ed[OF k] ed[OF ring_arith(1)[OF k]] ex[OF k] n1 n2 ring_arith(3)[OF i] by auto
  qed
  have "try_to_edit s i = s\<lparr>state := ?st, board_in_use := ?fl\<rparr>"
    using True by (simp add: try_to_edit_def NUM_BOARDS_def)
  then show ?thesis
    using g1 g2 len by (simp add: studio_inv_iff)
qed

lemma studio_inv_request:
  assumes inv: "studio_inv s" and i: "i < 5" and th: "state s ! i = THINKING"
  shows "studio_inv (request_boards s i)"
  unfolding request_boards_def
  using studio_inv_try_to_edit[OF studio_inv_hungry[OF inv i] i] th by simp

lemma studio_inv_cleared:
  assumes inv: "studio_inv s" and i: "i < 5" and e: "state s ! i = EDITING"
  shows "studio_inv (s\<lparr>state := (state s)[i := THINKING],
            board_in_use := (board_in_use s)[i := 0, (i + 1) mod 5 := 0]\<rparr>)"
proof -
  let ?R = "(i + 1) mod 5" and ?L = "(i + 5 - 1) mod 5"
  let ?st = "(state s)[i := THINKING]" and ?fl = "(board_in_use s)[i := 0, ?R := 0]"
  from inv have len: "length (state s) = 5" "length (board_in_use s) = 5"
    and fl: "\<And>b. b < 5 \<Longrightarrow> board_in_use s ! b =
        (if state s ! b = EDITING \<or> state s ! ((b + 5 - 1) mod 5) = EDITING then 1 else 0)"
    and ex: "\<And>k. k < 5 \<Longrightarrow> \<not> (state s ! k = EDITING \<and> state s ! ((k + 1) mod 5) = EDITING)"
    by (simp_all add: studio_inv_iff)
  from ex[OF i] e have n2: "state s ! ?R \<noteq> EDITING" by simp
  from ex[OF ring_arith(2)[OF i]] e ring_arith(6)[OF i] have n1: "state s ! ?L \<noteq> EDITING"
    by auto
  have ed: "(?st ! k = EDITING) = (k \<noteq> i \<and> state s ! k = EDITING)" if "k < 5" for k
    using that len by (cases "k = i") simp_all
  have flv: "?fl ! b = (if b = i \<or> b = ?R then 0 else board_in_use s ! b)" if "b < 5" for b
    using that len i ring_arith(1)[OF i] by (simp add: nth_list_update)
  have g1: "?fl ! b = (if ?st ! b = EDITING \<or> ?st ! ((b + 5 - 1) mod 5) = EDITING then 1 else 0)"
    if b: "b < 5" for b
  proof -
    have "((b + 5 - 1) mod 5 = i) = (b = ?R)"
      using ring_arith(5)[OF i] ring_arith(6)[OF b] by auto
    then show ?thesis
      using flv[OF b] fl[OF b] ed[OF b] ed[OF ring_arith(2)[OF b]] n1 n2 ring_arith(5)[OF i]
      by auto
  qed
  have g2: "\<not> (?st ! k = EDITING \<and> ?st ! ((k + 1) mod 5) = EDITING)" if k: "k < 5" for k
    using ed[OF k] ed[OF ring_arith(1)[OF k]] ex[OF k] by auto
  show ?thesis
    using g1 g2 len by (simp add: studio_inv_iff)
qed

lemma studio_inv_release:
  assumes inv: "studio_inv s" and i: "i < 5" and e: "state s ! i = EDITING"
  shows "studio_inv (release_boards s i)"
  unfolding release_boards_def Let_def NUM_EDITORS_def NUM_BOARDS_def
  by (intro studio_inv_try_to_edit studio_inv_cleared inv i e ring_arith(1,2))

lemma studio_inv_init: "studio_inv studio_monitor_init"
  by (simp add: studio_inv_iff studio_monitor_init_def NUM_EDITORS_def NUM_BOARDS_def)

lemma studio_inv_run:
  "studio_inv s \<Longrightarrow> studio_run cs s = Some s' \<Longrightarrow> studio_inv s'"
proof (induction cs arbitrary: s)
  case Nil
  then show ?case by simp
next
  case (Cons c cs)
  show ?case
  proof (cases c)
    case (Request i)
    with Cons.prems(2) have i: "i < 5" "state s ! i = THINKING"
      and r: "studio_run cs (request_boards s i) = Some s'"
      by (auto simp: NUM_EDITORS_def split: if_splits)
    from Cons.IH[OF studio_inv_request[OF Cons.prems(1) i] r] show ?thesis .
  next
    case (Release i)
    with Cons.prems(2) have i: "i < 5" "state s ! i = EDITING"
      and r: "studio_run cs (release_boards s i) = Some s'"
      by (auto simp: NUM_EDITORS_def split: if_splits)
    from Cons.IH[OF studio_inv_release[OF Cons.prems(1) i] r] show ?thesis .
  qed
qed

lemma studio_run_inv:
  assumes "studio_run cs studio_monitor_init = Some s"
  shows "studio_inv s"
  using studio_inv_run[OF studio_inv_init assms] .

text \<open>The monitor variant keeps the ring exclusive. In every state the editor threads can
  reach, no editor is \<open>EDITING\<close> together with its right neighbour, and a board is held by
  at most one editor. (\<open>video_studio_mutex.c\<close> has the same functions under the names
  \<open>test_editor\<close>, \<open>take_boards\<close> and \<open>put_boards\<close>.)\<close>

theorem studio_monitor_exclusion:
  assumes run: "studio_run cs studio_monitor_init = Some s"
    and i: "i < NUM_EDITORS" and j: "j < NUM_EDITORS"
  shows "\<not> (state s ! i = EDITING \<and> state s ! ((i + 1) mod NUM_EDITORS) = EDITING) \<and>
         (holds s i b \<and> holds s j b \<longrightarrow> i = j)"
proof -
  from studio_run_inv[OF run]
  have ex: "\<And>k. k < 5 \<Longrightarrow> \<not> (state s ! k = EDITING \<and> state s ! ((k + 1) mod 5) = EDITING)"
    by (simp add: studio_inv_iff)
  from i j have i5: "i < 5" and j5: "j < 5" by (simp_all add: NUM_EDITORS_def)
  have "i = j" if hi: "holds s i b" and hj: "holds s j b"
  proof (rule ccontr)
    assume ne: "i \<noteq> j"
    from hi hj have e: "state s ! i = EDITING" "state s ! j = EDITING"
      and b: "b = i \<or> b = (i + 1) mod 5" "b = j \<or> b = (j + 1) mod 5"
      by (simp_all add: holds_def NUM_BOARDS_def)
    from b ne consider "j = (i + 1) mod 5" | "i = (j + 1) mod 5"
      | "(i + 1) mod 5 = (j + 1) mod 5"
      by metis
    then show False
    proof cases
      case 1
      with ex[OF i5] e show False by simp
    next
      case 2
      with ex[OF j5] e show False by simp
    next
      case 3
      then have "((i + 1) mod 5 + 5 - 1) mod 5 = ((j + 1) mod 5 + 5 - 1) mod 5" by simp
      then have "i = j" by (simp only: ring_arith(5)[OF i5] ring_arith(5)[OF j5])
      with ne show False by simp
    qed
  qed
  then have u: "holds s i b \<and> holds s j b \<longrightarrow> i = j" by blast
  from ex[OF i5] have "\<not> (state s ! i = EDITING \<and> state s ! ((i + 1) mod NUM_EDITORS) = EDITING)"
    by (simp add: NUM_EDITORS_def)
  with u show ?thesis by blast
qed

theorem studio_monitor_exclusion_witness:
  "studio_run [Request 0, Request 2, Request 1] studio_monitor_init
     = Some \<lparr>state = [EDITING, HUNGRY, EDITING, THINKING, THINKING],
             board_in_use = [1, 1, 1, 1, 0], studio_should_stop = 0\<rparr> \<and>
   (0::nat) < NUM_EDITORS \<and>
   holds \<lparr>state = [EDITING, HUNGRY, EDITING, THINKING, THINKING],
          board_in_use = [1, 1, 1, 1, 0], studio_should_stop = 0\<rparr> 0 1 \<and>
   \<not> holds \<lparr>state = [EDITING, HUNGRY, EDITING, THINKING, THINKING],
          board_in_use = [1, 1, 1, 1, 0], studio_should_stop = 0\<rparr> 1 1"
proof -
  let ?s = "\<lparr>state = [EDITING, HUNGRY, EDITING, THINKING, THINKING],
             board_in_use = [1, 1, 1, 1, 0], studio_should_stop = 0\<rparr>"
  have r: "studio_run [Request 0, Request 2, Request 1] studio_monitor_init = Some ?s"
    by code_simp
  have n: "(0::nat) < NUM_EDITORS" "(1::nat) < NUM_EDITORS" by (simp_all add: NUM_EDITORS_def)
  have h: "holds ?s 0 1" by (simp add: holds_def NUM_BOARDS_def)
  from studio_monitor_exclusion[OF r n(1) n(2), of 1] h have "\<not> holds ?s 1 1" by simp
  with r n h show ?thesis by simp
qed

text \<open>Claim C1 fails in the semaphore variant. \<open>test_editor\<close> there compares the
  editor's state with the states at \<open>left = editor_id\<close> and at \<open>right\<close>, so the left
  neighbour is never looked at. Editor 1 goes through \<open>get_boards\<close> and works; editor 2
  then enters \<open>get_boards\<close>, and \<open>test_editor(2)\<close> sets its state to \<open>EDITING\<close> although
  its left neighbour 1 is \<open>EDITING\<close>: two adjacent editors are \<open>EDITING\<close> at once.\<close>

theorem sem_adjacent_editing:
  "map_option (state_sem \<circ> ctl) (sem_run [1, 1, 1, 1, 2] sem_studio_init)
     = Some [THINKING, EDITING, EDITING, THINKING, THINKING] \<and>
   map_option pcs (sem_run [1, 1, 1, 1, 2] sem_studio_init)
     = Some [Planning, Working, AwaitTurn, Planning, Planning]"
  by code_simp

text \<open>Claim C6 as written fails in the semaphore variant, where \<open>get_boards\<close> takes the two
  board semaphores one after the other, after it has left the mutex section. After three
  steps of editor 0 it has taken board 0 and not yet board 1. In the second schedule
  editor 1 has taken board 1 and cannot go on, since editor 2 works with board 2.\<close>

theorem sem_pair_counterexample:
  "sem_run [0, 0, 0] sem_studio_init = Some sem_first_board \<and>
   sem_holds sem_first_board 0 0 \<and> \<not> sem_holds sem_first_board 0 1 \<and>
   sem_run [2, 2, 2, 2, 1, 2, 2, 2, 2, 2, 1, 1] sem_studio_init = Some sem_stuck_board \<and>
   sem_holds sem_stuck_board 1 1 \<and> \<not> sem_holds sem_stuck_board 1 2 \<and>
   sem_holds sem_stuck_board 2 2 \<and> sem_step 1 sem_stuck_board = None"
  by code_simp

text \<open>Claim C6, amended. The editors call as the function \<open>editor\<close> does: an editor
  requests while \<open>THINKING\<close> and releases while \<open>EDITING\<close>. In the monitor variant, in every
  state reached this way, a board is marked in use exactly when one of the two editors
  next to it is \<open>EDITING\<close>, no two adjacent editors are \<open>EDITING\<close>, and so an editor has
  both of its boards when it is \<open>EDITING\<close> and none otherwise. A request in such a state
  is one step under the monitor lock: with both boards free it sets the state \<open>EDITING\<close>
  and marks both boards; otherwise it sets the state \<open>HUNGRY\<close> and marks no board. On any
  monitor, \<open>try_to_edit\<close> marks both boards of the editor and no other, or changes nothing.
  In the semaphore variant the left board is taken in a step of its own, outside the
  mutex section: after it the editor holds its left board and not its right one.\<close>

theorem studio_pair_atomic:
  "(studio_run cs studio_monitor_init = Some s \<and> i < NUM_EDITORS \<longrightarrow>
      board_in_use s ! i =
        (if state s ! i = EDITING \<or> state s ! ((i + NUM_EDITORS - 1) mod NUM_EDITORS) = EDITING
         then 1 else 0) \<and>
      board_in_use s ! ((i + 1) mod NUM_BOARDS) =
        (if state s ! ((i + 1) mod NUM_EDITORS) = EDITING \<or> state s ! i = EDITING
         then 1 else 0) \<and>
      \<not> (state s ! i = EDITING \<and> state s ! ((i + 1) mod NUM_EDITORS) = EDITING) \<and>
      \<not> (state s ! ((i + NUM_EDITORS - 1) mod NUM_EDITORS) = EDITING \<and> state s ! i = EDITING) \<and>
      holds s i i = (state s ! i = EDITING) \<and>
      holds s i ((i + 1) mod NUM_BOARDS) = (state s ! i = EDITING)) \<and>
   (studio_run cs studio_monitor_init = Some s \<and> i < NUM_EDITORS \<and> state s ! i = THINKING \<longrightarrow>
      (if board_in_use s ! i = 0 \<and> board_in_use s ! ((i + 1) mod NUM_BOARDS) = 0
       then state (request_boards s i) = (state s)[i := EDITING] \<and>
            board_in_use (request_boards s i) =
              (board_in_use s)[i := 1, (i + 1) mod NUM_BOARDS := 1] \<and>
            board_in_use (request_boards s i) ! i = 1 \<and>
            board_in_use (request_boards s i) ! ((i + 1) mod NUM_BOARDS) = 1
       else state (request_boards s i) = (state s)[i := HUNGRY] \<and>
            board_in_use (request_boards s i) = board_in_use s)) \<and>
   (length (state t) = NUM_EDITORS \<and> length (board_in_use t) = NUM_BOARDS \<and> i < NUM_EDITORS \<longrightarrow>
      (if can_edit t i
       then state (try_to_edit t i) = (state t)[i := EDITING] \<and>
            board_in_use (try_to_edit t i) ! i = 1 \<and>
            board_in_use (try_to_edit t i) ! ((i + 1) mod NUM_BOARDS) = 1 \<and>
            (\<forall>b. b \<noteq> i \<and> b \<noteq> (i + 1) mod NUM_BOARDS \<longrightarrow>
               board_in_use (try_to_edit t i) ! b = board_in_use t ! b)
       else try_to_edit t i = t)) \<and>
   (j < NUM_EDITORS \<and> length (pcs y) = NUM_EDITORS \<and> pcs y ! j = AwaitLeft \<and>
    sem_step j y = Some y' \<longrightarrow>
      sem_holds y' j j \<and> \<not> sem_holds y' j ((j + 1) mod NUM_BOARDS) \<and>
      state_sem (ctl y') = state_sem (ctl y) \<and> mutex_sem (ctl y') = mutex_sem (ctl y))"
proof -
  have step: "if can_edit t i
       then state (try_to_edit t i) = (state t)[i := EDITING] \<and>
            board_in_use (try_to_edit t i) ! i = 1 \<and>
            board_in_use (try_to_edit t i) ! ((i + 1) mod NUM_BOARDS) = 1 \<and>
            (\<forall>b. b \<noteq> i \<and> b \<noteq> (i + 1) mod NUM_BOARDS \<longrightarrow>
               board_in_use (try_to_edit t i) ! b = board_in_use t ! b)
       else try_to_edit t i = t"
    if len: "length (state t) = NUM_EDITORS" "length (board_in_use t) = NUM_BOARDS"
      and i: "i < NUM_EDITORS" for t
  proof (cases "can_edit t i")
    case False
    then show ?thesis by (simp add: try_to_edit_def)
  next
    case True
    from i have i5: "i < 5" by (simp add: NUM_EDITORS_def)
    from len have l5: "length (board_in_use t) = 5" by (simp add: NUM_BOARDS_def)
    have "board_in_use (try_to_edit t i) = (board_in_use t)[i := 1, (i + 1) mod 5 := 1]"
      "state (try_to_edit t i) = (state t)[i := EDITING]"
      using True by (simp_all add: try_to_edit_def NUM_BOARDS_def)
    with True l5 i5 ring_arith(1,3)[OF i5] show ?thesis
      by (simp add: NUM_BOARDS_def nth_list_update)
  qed
  have inv: "board_in_use s ! i =
        (if state s ! i = EDITING \<or> state s ! ((i + NUM_EDITORS - 1) mod NUM_EDITORS) = EDITING
         then 1 else 0) \<and>
      board_in_use s ! ((i + 1) mod NUM_BOARDS) =
        (if state s ! ((i + 1) mod NUM_EDITORS) = EDITING \<or> state s ! i = EDITING
         then 1 else 0) \<and>
      \<not> (state s ! i = EDITING \<and> state s ! ((i + 1) mod NUM_EDITORS) = EDITING) \<and>
      \<not> (state s ! ((i + NUM_EDITORS - 1) mod NUM_EDITORS) = EDITING \<and> state s ! i = EDITING) \<and>
      holds s i i = (state s ! i = EDITING) \<and>
      holds s i ((i + 1) mod NUM_BOARDS) = (state s ! i = EDITING)"
    if run: "studio_run cs studio_monitor_init = Some s" and i: "i < NUM_EDITORS"
  proof -
    from i have i5: "i < 5" by (simp add: NUM_EDITORS_def)
    from studio_run_inv[OF run]
    have fl: "\<And>b. b < 5 \<Longrightarrow> board_in_use s ! b =
          (if state s ! b = EDITING \<or> state s ! ((b + 5 - 1) mod 5) = EDITING then 1 else 0)"
      and ex: "\<And>k. k < 5 \<Longrightarrow> \<not> (state s ! k = EDITING \<and> state s ! ((k + 1) mod 5) = EDITING)"
      by (simp_all add: studio_inv_iff)
    have f1: "board_in_use s ! i =
        (if state s ! i = EDITING \<or> state s ! ((i + 5 - 1) mod 5) = EDITING then 1 else 0)"
      by (rule fl[OF i5])
    have f2: "board_in_use s ! ((i + 1) mod 5) =
        (if state s ! ((i + 1) mod 5) = EDITING \<or> state s ! i = EDITING then 1 else 0)"
      using fl[OF ring_arith(1)[OF i5]] by (simp only: ring_arith(5)[OF i5])
    have e1: "\<not> (state s ! i = EDITING \<and> state s ! ((i + 1) mod 5) = EDITING)"
      by (rule ex[OF i5])
    have e2: "\<not> (state s ! ((i + 5 - 1) mod 5) = EDITING \<and> state s ! i = EDITING)"
      using ex[OF ring_arith(2)[OF i5]] ring_arith(6)[OF i5] by simp
    have h1: "holds s i i = (state s ! i = EDITING)"
      using f1 by (auto simp: holds_def)
    have h2: "holds s i ((i + 1) mod 5) = (state s ! i = EDITING)"
      using f2 by (auto simp: holds_def NUM_BOARDS_def)
    from f1 f2 e1 e2 h1 h2 show ?thesis
      by (simp add: NUM_EDITORS_def NUM_BOARDS_def)
  qed
  have req: "if board_in_use s ! i = 0 \<and> board_in_use s ! ((i + 1) mod NUM_BOARDS) = 0
       then state (request_boards s i) = (state s)[i := EDITING] \<and>
            board_in_use (request_boards s i) =
              (board_in_use s)[i := 1, (i + 1) mod NUM_BOARDS := 1] \<and>
            board_in_use (request_boards s i) ! i = 1 \<and>
            board_in_use (request_boards s i) ! ((i + 1) mod NUM_BOARDS) = 1
       else state (request_boards s i) = (state s)[i := HUNGRY] \<and>
            board_in_use (request_boards s i) = board_in_use s"
    if run: "studio_run cs studio_monitor_init = Some s" and i: "i < NUM_EDITORS"
      and th: "state s ! i = THINKING"
  proof -
    from i have i5: "i < 5" by (simp add: NUM_EDITORS_def)
    from studio_run_inv[OF run]
    have len: "length (state s) = 5" "length (board_in_use s) = 5"
      by (simp_all add: studio_inv_iff)
    let ?h = "s\<lparr>state := (state s)[i := HUNGRY]\<rparr>"
    have ce: "can_edit ?h i =
        (board_in_use s ! i = 0 \<and> board_in_use s ! ((i + 1) mod NUM_BOARDS) = 0)"
      using len i5 by (simp add: can_edit_def)
    show ?thesis
    proof (cases "can_edit ?h i")
      case True
      then have "request_boards s i =
          ?h\<lparr>state := (state ?h)[i := EDITING],
             board_in_use := (board_in_use ?h)[i := 1, (i + 1) mod NUM_BOARDS := 1]\<rparr>"
        by (simp add: request_boards_def try_to_edit_def)
      with True ce len i5 ring_arith(1,3)[OF i5] show ?thesis
        by (simp add: NUM_BOARDS_def nth_list_update)
    next
      case False
      then have "request_boards s i = ?h"
        by (simp add: request_boards_def try_to_edit_def)
      with False ce show ?thesis by auto
    qed
  qed
  have sem: "sem_holds y' j j \<and> \<not> sem_holds y' j ((j + 1) mod NUM_BOARDS) \<and>
      state_sem (ctl y') = state_sem (ctl y) \<and> mutex_sem (ctl y') = mutex_sem (ctl y)"
    if j: "j < NUM_EDITORS" and len: "length (pcs y) = NUM_EDITORS"
      and pc: "pcs y ! j = AwaitLeft" and st: "sem_step j y = Some y'"
  proof -
    from j have j5: "j < 5" by (simp add: NUM_EDITORS_def)
    from st j pc obtain b where "sem_wait_at (boards (ctl y)) j = Some b"
      and y': "y' = \<lparr>ctl = (ctl y)\<lparr>boards := b\<rparr>, pcs = (pcs y)[j := AwaitRight]\<rparr>"
      by (auto simp: sem_step_def)
    from j len have "pcs y' ! j = AwaitRight" by (simp add: y')
    with ring_arith(3)[OF j5] show ?thesis
      by (simp add: sem_holds_def NUM_BOARDS_def y')
  qed
  from inv req step sem show ?thesis by blast
qed

theorem studio_pair_atomic_witness:
  "studio_run [] studio_monitor_init = Some studio_monitor_init \<and>
   (0::nat) < NUM_EDITORS \<and> state studio_monitor_init ! 0 = THINKING \<and>
   board_in_use studio_monitor_init ! 0 = 0 \<and>
   board_in_use studio_monitor_init ! ((0 + 1) mod NUM_BOARDS) = 0 \<and>
   state (request_boards studio_monitor_init 0) = state one_editing \<and>
   board_in_use (request_boards studio_monitor_init 0) = board_in_use one_editing \<and>
   studio_run [Request 0] studio_monitor_init = Some one_editing \<and>
   (1::nat) < NUM_EDITORS \<and> state one_editing ! 1 = THINKING \<and>
   board_in_use one_editing ! 1 = 1 \<and>
   state (request_boards one_editing 1) = [EDITING, HUNGRY, THINKING, THINKING, THINKING] \<and>
   board_in_use (request_boards one_editing 1) = board_in_use one_editing \<and>
   holds one_editing 0 0 \<and> holds one_editing 0 1 \<and>
   \<not> holds one_editing 1 1 \<and> \<not> holds one_editing 1 2 \<and>
   length (state one_hungry) = NUM_EDITORS \<and> length (board_in_use one_hungry) = NUM_BOARDS \<and>
   can_edit one_hungry 0 \<and> state (try_to_edit one_hungry 0) = state one_editing \<and>
   board_in_use (try_to_edit one_hungry 0) = board_in_use one_editing \<and>
   \<not> can_edit one_editing 1 \<and> try_to_edit one_editing 1 = one_editing \<and>
   length (pcs sem_second_step) = NUM_EDITORS \<and> pcs sem_second_step ! 0 = AwaitLeft \<and>
   sem_step 0 sem_second_step = Some sem_first_board \<and>
   sem_holds sem_first_board 0 0 \<and> \<not> sem_holds sem_first_board 0 1"
proof -
  have r0: "studio_run [] studio_monitor_init = Some studio_monitor_init" by simp
  have r1: "studio_run [Request 0] studio_monitor_init = Some one_editing" by code_simp
  have n: "(0::nat) < NUM_EDITORS" "(1::nat) < NUM_EDITORS" by (simp_all add: NUM_EDITORS_def)
  have t0: "state studio_monitor_init ! 0 = THINKING"
    "board_in_use studio_monitor_init ! 0 = 0"
    "board_in_use studio_monitor_init ! ((0 + 1) mod NUM_BOARDS) = 0"
    by (simp_all add: studio_monitor_init_def NUM_EDITORS_def NUM_BOARDS_def)
  have t1: "state one_editing ! 1 = THINKING" "board_in_use one_editing ! 1 = 1"
    "state one_editing = [EDITING, THINKING, THINKING, THINKING, THINKING]"
    "board_in_use one_editing = [1, 1, 0, 0, 0]"
    by (simp_all add: one_editing_def)
  have h: "length (state one_hungry) = NUM_EDITORS" "length (board_in_use one_hungry) = NUM_BOARDS"
    "length (state one_editing) = NUM_EDITORS" "length (board_in_use one_editing) = NUM_BOARDS"
    by (simp_all add: one_hungry_def one_editing_def NUM_EDITORS_def NUM_BOARDS_def)
  have c: "can_edit one_hungry 0" "\<not> can_edit one_editing 1"
    by (simp_all add: can_edit_def one_hungry_def one_editing_def NUM_BOARDS_def)
  have e: "state (request_boards studio_monitor_init 0) = state one_editing"
    "board_in_use (request_boards studio_monitor_init 0) = board_in_use one_editing"
    "state (try_to_edit one_hungry 0) = state one_editing"
    "board_in_use (try_to_edit one_hungry 0) = board_in_use one_editing"
    by code_simp+
  have l: "length (pcs sem_second_step) = NUM_EDITORS" "pcs sem_second_step ! 0 = AwaitLeft"
    by (simp_all add: sem_second_step_def NUM_EDITORS_def)
  have t: "sem_step 0 sem_second_step = Some sem_first_board"
    by code_simp
  note inv = studio_pair_atomic[THEN conjunct1, THEN mp]
  note req = studio_pair_atomic[THEN conjunct2, THEN conjunct1, THEN mp]
  note stp = studio_pair_atomic[THEN conjunct2, THEN conjunct2, THEN conjunct1, THEN mp]
  note sem = studio_pair_atomic[THEN conjunct2, THEN conjunct2, THEN conjunct2, THEN mp]
  have m: "(0 + 1) mod NUM_BOARDS = (1::nat)" "(1 + 1) mod NUM_BOARDS = (2::nat)"
    by (simp_all add: NUM_BOARDS_def)
  from sem[OF conjI[OF n(1) conjI[OF l(1) conjI[OF l(2) t]]]]
  have s1: "sem_holds sem_first_board 0 0"
    and s2: "\<not> sem_holds sem_first_board 0 1"
    unfolding m by (rule conjunct1, rule conjunct2[THEN conjunct1])
  have nf: "\<not> (board_in_use one_editing ! 1 = 0 \<and>
      board_in_use one_editing ! ((1 + 1) mod NUM_BOARDS) = 0)"
    using t1(2) by simp
  from req[OF conjI[OF r1 conjI[OF n(2) t1(1)]]] nf
  have "state (request_boards one_editing 1) = (state one_editing)[1 := HUNGRY] \<and>
      board_in_use (request_boards one_editing 1) = board_in_use one_editing"
    by (simp only: if_False)
  then have q: "state (request_boards one_editing 1)
        = [EDITING, HUNGRY, THINKING, THINKING, THINKING]"
    "board_in_use (request_boards one_editing 1) = board_in_use one_editing"
    by (simp_all add: t1(3))
  from stp[OF conjI[OF h(3) conjI[OF h(4) n(2)]]] c(2)
  have u: "try_to_edit one_editing 1 = one_editing" by (simp only: if_False)
  have e0: "state one_editing ! 0 = EDITING" and e1: "state one_editing ! 1 \<noteq> EDITING"
    by (simp_all add: t1(3))
  from inv[OF conjI[OF r1 n(1)]]
  have x1: "holds one_editing 0 0 = (state one_editing ! 0 = EDITING)"
    and x2: "holds one_editing 0 1 = (state one_editing ! 0 = EDITING)"
    unfolding m
    by (rule conjunct2[THEN conjunct2, THEN conjunct2, THEN conjunct2, THEN conjunct1],
        rule conjunct2[THEN conjunct2, THEN conjunct2, THEN conjunct2, THEN conjunct2])
  from x1 x2 e0 have ho: "holds one_editing 0 0" "holds one_editing 0 1"
    by blast+
  from inv[OF conjI[OF r1 n(2)]]
  have x3: "holds one_editing 1 1 = (state one_editing ! 1 = EDITING)"
    and x4: "holds one_editing 1 2 = (state one_editing ! 1 = EDITING)"
    unfolding m
    by (rule conjunct2[THEN conjunct2, THEN conjunct2, THEN conjunct2, THEN conjunct1],
        rule conjunct2[THEN conjunct2, THEN conjunct2, THEN conjunct2, THEN conjunct2])
  from x3 x4 e1 have hn: "\<not> holds one_editing 1 1" "\<not> holds one_editing 1 2"
    by blast+
  show ?thesis
    by (intro conjI r0 r1 n t0 t1(1,2) h(1,2) c e l t s1 s2 q u ho hn)
qed

section \<open>Catalog: properties\<close>

lemma count_list_update:
  "i < length xs \<Longrightarrow>
   int (count_list (xs[i := b]) c) =
     int (count_list xs c) - (if xs ! i = c then 1 else 0) + (if b = c then 1 else 0)"
proof (induction xs arbitrary: i)
  case Nil
  then show ?case by simp
next
  case (Cons x xs)
  show ?case
  proof (cases i)
    case 0
    then show ?thesis by simp
  next
    case (Suc n)
    with Cons.prems have "n < length xs" by simp
    from Cons.IH[OF this] Suc show ?thesis by (auto split: if_splits)
  qed
qed

lemma catalog_inv_reader:
  assumes inv: "catalog_inv y" and st: "catalog_step (ReaderStep i) y = Some y'"
  shows "catalog_inv y'"
proof -
  from st have i: "i < NUM_READERS" by (simp split: if_splits)
  with inv have il: "i < length (readers y)" by (simp add: catalog_inv_def)
  show ?thesis
  proof (cases "readers y ! i")
    case ReadIdle
    with st i obtain c where c: "start_read (cat y) = Some c"
      and y': "y' = y\<lparr>cat := c, readers := (readers y)[i := Reading]\<rparr>"
      by auto
    from c have c': "c = (cat y)\<lparr>num_readers := num_readers (cat y) + 1\<rparr>"
      and w: "num_writers (cat y) \<le> 0" "writer_waiting (cat y) \<le> 0"
      by (auto simp: start_read_def split: if_splits)
    from inv w il ReadIdle show ?thesis
      unfolding y' c' catalog_inv_def gate_inv_def
      by (auto simp: count_list_update)
  next
    case Reading
    with st i have y': "y' = y\<lparr>cat := end_read (cat y), readers := (readers y)[i := ReadIdle]\<rparr>"
      by auto
    from il Reading have "Reading \<in> set (readers y)" by (metis nth_mem)
    then have "0 < count_list (readers y) Reading"
      using count_list_0_iff[of "readers y" Reading] by simp
    with inv il Reading show ?thesis
      unfolding y' catalog_inv_def gate_inv_def end_read_def
      by (auto simp: count_list_update)
  qed
qed

lemma catalog_inv_writer:
  assumes inv: "catalog_inv y" and st: "catalog_step (WriterStep j) y = Some y'"
  shows "catalog_inv y'"
proof -
  from st have j: "j < NUM_WRITERS" by (simp split: if_splits)
  with inv have jl: "j < length (writers y)" by (simp add: catalog_inv_def)
  show ?thesis
  proof (cases "writers y ! j")
    case WriteIdle
    let ?c1 = "start_write_register (cat y)"
    show ?thesis
    proof (cases "start_write_proceed ?c1")
      case None
      with st j WriteIdle have y': "y' = y\<lparr>cat := ?c1, writers := (writers y)[j := WriteWaiting]\<rparr>"
        by simp
      from inv jl WriteIdle show ?thesis
        unfolding y' catalog_inv_def gate_inv_def start_write_register_def
        by (auto simp: count_list_update)
    next
      case (Some c2)
      with st j WriteIdle have y': "y' = y\<lparr>cat := c2, writers := (writers y)[j := Writing]\<rparr>"
        by simp
      from Some have c2: "c2 = (cat y)\<lparr>num_writers := num_writers (cat y) + 1\<rparr>"
        and g: "num_readers (cat y) \<le> 0" "num_writers (cat y) \<le> 0"
        by (auto simp: start_write_proceed_def start_write_register_def split: if_splits)
      from inv jl WriteIdle g show ?thesis
        unfolding y' c2 catalog_inv_def gate_inv_def
        by (auto simp: count_list_update)
    qed
  next
    case WriteWaiting
    with st j obtain c where c: "start_write_proceed (cat y) = Some c"
      and y': "y' = y\<lparr>cat := c, writers := (writers y)[j := Writing]\<rparr>"
      by auto
    from c have c': "c = (cat y)\<lparr>writer_waiting := writer_waiting (cat y) - 1,
                               num_writers := num_writers (cat y) + 1\<rparr>"
      and g: "num_readers (cat y) \<le> 0" "num_writers (cat y) \<le> 0"
      by (auto simp: start_write_proceed_def split: if_splits)
    from jl WriteWaiting have "WriteWaiting \<in> set (writers y)" by (metis nth_mem)
    then have "0 < count_list (writers y) WriteWaiting"
      using count_list_0_iff[of "writers y" WriteWaiting] by simp
    with inv jl WriteWaiting g show ?thesis
      unfolding y' c' catalog_inv_def gate_inv_def
      by (auto simp: count_list_update)
  next
    case Writing
    with st j show ?thesis by simp
  next
    case Written
    with st j have y': "y' = y\<lparr>cat := end_write (cat y), writers := (writers y)[j := WriteIdle]\<rparr>"
      by simp
    from jl Written have "Written \<in> set (writers y)" by (metis nth_mem)
    then have "0 < count_list (writers y) Written"
      using count_list_0_iff[of "writers y" Written] by simp
    with inv jl Written show ?thesis
      unfolding y' catalog_inv_def gate_inv_def end_write_def
      by (auto simp: count_list_update)
  qed
qed

lemma catalog_inv_update:
  assumes inv: "catalog_inv y" and st: "catalog_step (WriterUpdate j r1 r2 r3) y = Some y'"
  shows "catalog_inv y'"
proof -
  from st have j: "j < NUM_WRITERS" by (simp split: if_splits)
  with inv have jl: "j < length (writers y)" by (simp add: catalog_inv_def)
  from st j have w: "writers y ! j = Writing"
    and y': "y' = y\<lparr>cat := (cat y)\<lparr>products := writer_update (products (cat y)) r1 r2 r3\<rparr>,
                  writers := (writers y)[j := Written]\<rparr>"
    by (auto split: writer_pc.splits)
  from jl w have "Writing \<in> set (writers y)" by (metis nth_mem)
  then have "0 < count_list (writers y) Writing"
    using count_list_0_iff[of "writers y" Writing] by simp
  with inv jl w show ?thesis
    unfolding y' catalog_inv_def gate_inv_def
    by (auto simp: count_list_update)
qed

lemma catalog_inv_step:
  "catalog_inv y \<Longrightarrow> catalog_step e y = Some y' \<Longrightarrow> catalog_inv y'"
  by (cases e) (blast intro: catalog_inv_reader catalog_inv_writer catalog_inv_update)+

lemma catalog_inv_run:
  "catalog_inv y \<Longrightarrow> catalog_run es y = Some y' \<Longrightarrow> catalog_inv y'"
proof (induction es arbitrary: y)
  case Nil
  then show ?case by simp
next
  case (Cons e es)
  from Cons.prems(2) obtain y1 where s: "catalog_step e y = Some y1"
    and r: "catalog_run es y1 = Some y'"
    by (auto split: option.splits)
  from Cons.IH[OF catalog_inv_step[OF Cons.prems(1) s] r] show ?case .
qed

lemma catalog_inv_init: "catalog_inv (catalog_sys_init rnd)"
  by (simp add: catalog_inv_def gate_inv_def catalog_sys_init_def catalog_monitor_init_def)

lemma sint_small:
  assumes "n < 50"
  shows "sint (of_nat n :: 32 word) = int n"
proof -
  have "sint (word_of_int (int n) :: 32 word) = signed_take_bit (LENGTH(32) - 1) (int n)"
    by (rule sint_sbintrunc')
  also have "\<dots> = int n"
    using assms by (intro signed_take_bit_int_eq_self) simp_all
  finally show ?thesis by simp
qed

lemma update_product_nonneg: "0 \<le> sint (stock (update_product p a b))"
  by (simp add: update_product_def Let_def)

lemma initial_products_nonneg:
  "p \<in> set (initial_products rnd) \<Longrightarrow> 0 \<le> sint (stock p)"
  by (auto simp: initial_products_def sint_small)

lemma writer_update_nonneg:
  assumes "\<forall>p\<in>set ps. 0 \<le> sint (stock p)"
  shows "\<forall>p\<in>set (writer_update ps r1 r2 r3). 0 \<le> sint (stock p)"
proof
  fix p
  assume "p \<in> set (writer_update ps r1 r2 r3)"
  then have "p \<in> insert (update_product (ps ! (r1 mod MAX_PRODUCTS))
                 (int (r2 mod 20) - 10) (int (r3 mod 10) - 3)) (set ps)"
    unfolding writer_update_def Let_def using set_update_subset_insert by fastforce
  with assms update_product_nonneg show "0 \<le> sint (stock p)" by auto
qed

lemma catalog_step_products:
  assumes "\<forall>p\<in>set (products (cat y)). 0 \<le> sint (stock p)"
    and "catalog_step e y = Some y'"
  shows "\<forall>p\<in>set (products (cat y')). 0 \<le> sint (stock p)"
proof (cases e)
  case (ReaderStep i)
  with assms(2) have "products (cat y') = products (cat y)"
    by (auto simp: start_read_def end_read_def split: if_splits reader_pc.splits)
  with assms(1) show ?thesis by simp
next
  case (WriterStep j)
  with assms(2) have "products (cat y') = products (cat y)"
    by (auto simp: start_write_register_def start_write_proceed_def end_write_def Let_def
        split: if_splits writer_pc.splits option.splits)
  with assms(1) show ?thesis by simp
next
  case (WriterUpdate j r1 r2 r3)
  with assms(2) have "products (cat y') = writer_update (products (cat y)) r1 r2 r3"
    by (auto split: if_splits writer_pc.splits)
  with writer_update_nonneg[OF assms(1)] show ?thesis by simp
qed

lemma catalog_run_products:
  "\<forall>p\<in>set (products (cat y)). 0 \<le> sint (stock p) \<Longrightarrow> catalog_run es y = Some y' \<Longrightarrow>
   \<forall>p\<in>set (products (cat y')). 0 \<le> sint (stock p)"
proof (induction es arbitrary: y)
  case Nil
  then show ?case by simp
next
  case (Cons e es)
  from Cons.prems(2) obtain y1 where s: "catalog_step e y = Some y1"
    and r: "catalog_run es y1 = Some y'"
    by (auto split: option.splits)
  from Cons.IH[OF catalog_step_products[OF Cons.prems(1) s] r] show ?case .
qed

lemma mx_step_products:
  assumes "\<forall>p\<in>set (products_mx (shared z)). 0 \<le> sint (stock p)"
    and "mx_step e z = Some z'"
  shows "\<forall>p\<in>set (products_mx (shared z')). 0 \<le> sint (stock p)"
proof (cases e)
  case (MxReader i)
  with assms(2) have "products_mx (shared z') = products_mx (shared z)"
    by (auto simp: reader_entry_def reader_first_def reader_exit_def Let_def
        split: if_splits mx_reader_pc.splits)
  with assms(1) show ?thesis by simp
next
  case (MxWriter j r1 r2 r3)
  with assms(2) have "products_mx (shared z') = products_mx (shared z) \<or>
      products_mx (shared z') = writer_update (products_mx (shared z)) r1 r2 r3"
    by (auto simp: writer_entry_def writer_section_def split: if_splits mx_writer_pc.splits)
  with writer_update_nonneg[OF assms(1)] assms(1) show ?thesis by auto
qed

lemma mx_run_products:
  "\<forall>p\<in>set (products_mx (shared z)). 0 \<le> sint (stock p) \<Longrightarrow> mx_run es z = Some z' \<Longrightarrow>
   \<forall>p\<in>set (products_mx (shared z')). 0 \<le> sint (stock p)"
proof (induction es arbitrary: z)
  case Nil
  then show ?case by simp
next
  case (Cons e es)
  from Cons.prems(2) obtain z1 where s: "mx_step e z = Some z1"
    and r: "mx_run es z1 = Some z'"
    by (auto split: option.splits)
  from Cons.IH[OF mx_step_products[OF Cons.prems(1) s] r] show ?case .
qed

lemma count_list_pos: "i < length xs \<Longrightarrow> xs ! i = a \<Longrightarrow> 0 < count_list xs a"
  using count_list_0_iff[of xs a] nth_mem[of i xs] by auto

lemma count_list_update_nat:
  assumes "i < length xs"
  shows "count_list (xs[i := b]) c =
     count_list xs c - (if xs ! i = c then 1 else 0) + (if b = c then 1 else 0)"
proof -
  have "0 < count_list xs c" if "xs ! i = c"
    using count_list_pos[OF assms that] .
  then have "int (count_list xs c - (if xs ! i = c then 1 else 0) + (if b = c then 1 else 0))
      = int (count_list xs c) - (if xs ! i = c then 1 else 0) + (if b = c then 1 else 0)"
    by auto
  with count_list_update[OF assms, of b c] show ?thesis by linarith
qed

lemma mx_inv_reader:
  assumes inv: "mx_inv z" and st: "mx_step (MxReader i) z = Some z'"
  shows "mx_inv z'"
proof -
  from st have i: "i < NUM_READERS" by (simp split: if_splits)
  with inv have il: "i < length (mx_readers z)" by (simp add: mx_inv_def)
  show ?thesis
  proof (cases "mx_readers z ! i")
    case MxIdle
    with st i obtain k pc where e: "reader_entry (shared z) = Some (k, pc)"
      and z': "z' = z\<lparr>shared := k, mx_readers := (mx_readers z)[i := pc]\<rparr>"
      by auto
    from e have free: "\<not> mutex (shared z)"
      by (auto simp: reader_entry_def split: if_splits)
    with inv have nf: "count_list (mx_readers z) MxFirst = 0" by (simp add: mx_inv_def)
    from e free consider
      (first) "k = (shared z)\<lparr>num_readers_mx := num_readers_mx (shared z) + 1, mutex := True\<rparr>"
        "pc = MxFirst" "num_readers_mx (shared z) = 0"
      | (lock) "k = (shared z)\<lparr>num_readers_mx := num_readers_mx (shared z) + 1, write_mutex := True\<rparr>"
        "pc = MxReading"
      | (join) "k = (shared z)\<lparr>num_readers_mx := num_readers_mx (shared z) + 1\<rparr>"
        "pc = MxReading"
      by (auto simp: reader_entry_def Let_def split: if_splits)
    then show ?thesis
    proof cases
      case first
      with inv il MxIdle nf free show ?thesis
        unfolding z' mx_inv_def by (auto simp: count_list_update count_list_update_nat)
    next
      case lock
      with inv il MxIdle nf free show ?thesis
        unfolding z' mx_inv_def by (auto simp: count_list_update count_list_update_nat)
    next
      case join
      with inv il MxIdle nf free show ?thesis
        unfolding z' mx_inv_def by (auto simp: count_list_update count_list_update_nat)
    qed
  next
    case MxFirst
    with st i obtain k where e: "reader_first (shared z) = Some k"
      and z': "z' = z\<lparr>shared := k, mx_readers := (mx_readers z)[i := MxReading]\<rparr>"
      by auto
    from e have k: "k = (shared z)\<lparr>write_mutex := True, mutex := False\<rparr>"
      by (auto simp: reader_first_def split: if_splits)
    from count_list_pos[OF il MxFirst] have p: "0 < count_list (mx_readers z) MxFirst" .
    with inv have "mutex (shared z)" "num_readers_mx (shared z) = 1"
      by (auto simp: mx_inv_def split: if_splits)
    with inv il MxFirst p show ?thesis
      unfolding z' k mx_inv_def by (auto simp: count_list_update count_list_update_nat)
  next
    case MxReading
    with st i obtain k where e: "reader_exit (shared z) = Some k"
      and z': "z' = z\<lparr>shared := k, mx_readers := (mx_readers z)[i := MxIdle]\<rparr>"
      by auto
    from e have free: "\<not> mutex (shared z)"
      and k: "num_readers_mx k = num_readers_mx (shared z) - 1" "mutex k = mutex (shared z)"
      by (auto simp: reader_exit_def Let_def split: if_splits)
    from count_list_pos[OF il MxReading] have p: "0 < count_list (mx_readers z) MxReading" .
    with inv il MxReading free k show ?thesis
      unfolding z' mx_inv_def by (auto simp: count_list_update count_list_update_nat)
  qed
qed

lemma mx_inv_writer:
  assumes inv: "mx_inv z" and st: "mx_step (MxWriter j r1 r2 r3) z = Some z'"
  shows "mx_inv z'"
proof -
  from st have "mx_readers z' = mx_readers z \<and> length (mx_writers z') = length (mx_writers z) \<and>
      num_readers_mx (shared z') = num_readers_mx (shared z) \<and>
      mutex (shared z') = mutex (shared z)"
    by (auto simp: writer_entry_def writer_section_def split: if_splits mx_writer_pc.splits)
  with inv show ?thesis unfolding mx_inv_def by auto
qed

lemma mx_inv_step: "mx_inv z \<Longrightarrow> mx_step e z = Some z' \<Longrightarrow> mx_inv z'"
  by (cases e) (blast intro: mx_inv_reader mx_inv_writer)+

lemma mx_inv_run: "mx_inv z \<Longrightarrow> mx_run es z = Some z' \<Longrightarrow> mx_inv z'"
proof (induction es arbitrary: z)
  case Nil
  then show ?case by simp
next
  case (Cons e es)
  from Cons.prems(2) obtain z1 where s: "mx_step e z = Some z1"
    and r: "mx_run es z1 = Some z'"
    by (auto split: option.splits)
  from Cons.IH[OF mx_inv_step[OF Cons.prems(1) s] r] show ?case .
qed

lemma mx_inv_init: "mx_inv (mx_sys_init rnd)"
  by (simp add: mx_inv_def mx_sys_init_def init_catalog_def)

lemmas gate_eval = catalog_sys_init_def catalog_monitor_init_def gate_counters_def
  start_read_def end_read_def start_write_register_def start_write_proceed_def end_write_def
  NUM_READERS_def NUM_WRITERS_def Let_def

lemma readers_two_run:
  "map_option gate_counters (catalog_run [ReaderStep 0, ReaderStep 1] (catalog_sys_init zero_rand))
     = Some (2, 0, 0)"
  by (simp add: gate_eval)

lemma writer_one_run:
  "map_option gate_counters (catalog_run [WriterStep 0] (catalog_sys_init zero_rand))
     = Some (0, 1, 0)"
  by (simp add: gate_eval)

text \<open>Claim C2 as written fails: the monitor does not check that its calls come in pairs.
  A second \<open>end_write\<close> after a write makes \<open>num_writers\<close> negative; a writer that then
  enters brings it back to 0, and a reader is admitted beside that writer.\<close>

theorem gate_unpaired_counterexample:
  "map_option monitor_counters
     (gate_calls [BeginWrite, EndWrite, EndWrite] (catalog_monitor_init zero_rand))
     = Some (0, - 1, 0) \<and>
   map_option monitor_counters
     (gate_calls [BeginWrite, EndWrite, EndWrite, BeginWrite, BeginRead]
        (catalog_monitor_init zero_rand))
     = Some (1, 0, 0)"
  by (simp add: catalog_monitor_init_def monitor_counters_def start_read_def end_read_def
      start_write_register_def start_write_proceed_def end_write_def)

text \<open>Claim C2, amended to calls in pairs. Every reader thread calls \<open>start_read\<close> and then
  \<open>end_read\<close>, every writer thread \<open>start_write\<close> and then \<open>end_write\<close>, as \<open>reader\<close> and
  \<open>writer\<close> do. In every state the threads of the monitor variant can reach, in any
  interleaving, \<open>num_writers\<close> is 0 or 1, an active writer excludes active readers, and
  active readers exclude an active writer. The counters are the numbers of threads inside
  the read section and inside the write section.\<close>

theorem gate_exclusive:
  assumes "catalog_run es (catalog_sys_init rnd) = Some y"
  shows "(num_writers (cat y) = 0 \<or> num_writers (cat y) = 1) \<and>
         (num_writers (cat y) = 1 \<longrightarrow> num_readers (cat y) = 0) \<and>
         (0 < num_readers (cat y) \<longrightarrow> num_writers (cat y) = 0) \<and>
         num_readers (cat y) = int (count_list (readers y) Reading) \<and>
         num_writers (cat y) = int (count_list (writers y) Writing + count_list (writers y) Written)"
proof -
  from catalog_inv_run[OF catalog_inv_init assms] have "catalog_inv y" .
  then show ?thesis
    unfolding catalog_inv_def gate_inv_def by auto
qed

theorem gate_exclusive_witness:
  "map_option gate_counters (catalog_run [ReaderStep 0, ReaderStep 1] (catalog_sys_init zero_rand))
     = Some (2, 0, 0) \<and>
   map_option gate_counters (catalog_run [WriterStep 0] (catalog_sys_init zero_rand))
     = Some (0, 1, 0)"
proof -
  from readers_two_run obtain y where
    y: "catalog_run [ReaderStep 0, ReaderStep 1] (catalog_sys_init zero_rand) = Some y"
    and cy: "gate_counters y = (2, 0, 0)"
    by auto
  from writer_one_run obtain w where
    w: "catalog_run [WriterStep 0] (catalog_sys_init zero_rand) = Some w"
    and cw: "gate_counters w = (0, 1, 0)"
    by auto
  from cy have "0 < num_readers (cat y)" by (simp add: gate_counters_def)
  with gate_exclusive[OF y] have ny: "num_writers (cat y) = 0" by blast
  from cw have "num_writers (cat w) = 1" by (simp add: gate_counters_def)
  with gate_exclusive[OF w] have nw: "num_readers (cat w) = 0" by blast
  from y w cy cw ny nw show ?thesis by simp
qed

lemmas mx_eval = mx_sys_init_def init_catalog_def reader_entry_def reader_first_def
  reader_exit_def writer_entry_def writer_section_def NUM_READERS_def NUM_WRITERS_def Let_def

lemma mx_reader_in_run:
  "mx_run [MxReader 0] (mx_sys_init zero_rand)
     = Some \<lparr>shared = (init_catalog zero_rand)\<lparr>num_readers_mx := 1, write_mutex := True\<rparr>,
             mx_readers = [MxReading, MxIdle, MxIdle, MxIdle, MxIdle],
             mx_writers = [MxOut, MxOut]\<rparr>"
  by (simp add: mx_eval eval_nat_numeral)

text \<open>Claim C3 as written fails: neither gate takes a policy. In the monitor variant, with
  reader 0 reading and writer 0 asleep in \<open>start_write\<close>, no writer is active and yet
  \<open>start_read\<close> of reader 1 does not complete. In the mutex variant, with reader 0 reading,
  writer 0 sleeps on \<open>write_mutex\<close> (its step is \<open>None\<close>, the state stays as it is) and
  reader 1 enters all the same.\<close>

theorem gate_policy_counterexample:
  "map_option gate_counters (catalog_run [ReaderStep 0, WriterStep 0] (catalog_sys_init zero_rand))
     = Some (1, 0, 1) \<and>
   catalog_run [ReaderStep 0, WriterStep 0, ReaderStep 1] (catalog_sys_init zero_rand) = None \<and>
   mx_run [MxReader 0, MxWriter 0 0 0 0] (mx_sys_init zero_rand) = None \<and>
   map_option mx_readers (mx_run [MxReader 0, MxReader 1] (mx_sys_init zero_rand))
     = Some [MxReading, MxReading, MxIdle, MxIdle, MxIdle]"
  by (simp add: gate_eval mx_eval eval_nat_numeral)

text \<open>Claim C3, amended: each variant has one fixed policy. In the monitor variant
  \<open>start_read\<close> sleeps exactly while a writer is active or waiting (writers first). The
  mutex variant keeps no record of waiting writers, and in every reachable state in which
  some reader is reading, a reader outside completes its entry protocol at once and reads
  (readers first).\<close>

theorem gate_policy_fixed:
  "(start_read c = None) = (0 < num_writers c \<or> 0 < writer_waiting c) \<and>
   (mx_run es (mx_sys_init rnd) = Some z \<and> i < NUM_READERS \<and> r < NUM_READERS \<and>
    mx_readers z ! i = MxIdle \<and> mx_readers z ! r = MxReading \<longrightarrow>
      (\<exists>z'. mx_step (MxReader i) z = Some z' \<and> mx_readers z' ! i = MxReading))"
proof -
  have a: "(start_read c = None) = (0 < num_writers c \<or> 0 < writer_waiting c)"
    by (simp add: start_read_def)
  have b: "\<exists>z'. mx_step (MxReader i) z = Some z' \<and> mx_readers z' ! i = MxReading"
    if run: "mx_run es (mx_sys_init rnd) = Some z" and i: "i < NUM_READERS"
      and r: "r < NUM_READERS" and pi: "mx_readers z ! i = MxIdle"
      and pr: "mx_readers z ! r = MxReading"
  proof -
    from mx_inv_run[OF mx_inv_init run] have inv: "mx_inv z" .
    then have len: "length (mx_readers z) = NUM_READERS"
      and n: "num_readers_mx (shared z) =
         int (count_list (mx_readers z) MxFirst + count_list (mx_readers z) MxReading)"
      and m: "mutex (shared z) = (0 < count_list (mx_readers z) MxFirst)"
      and o: "mutex (shared z) \<Longrightarrow> num_readers_mx (shared z) = 1"
      by (simp_all add: mx_inv_def split: if_splits)
    from r len pr have p: "0 < count_list (mx_readers z) MxReading"
      by (intro count_list_pos[of r]) simp_all
    have free: "\<not> mutex (shared z)"
    proof
      assume l: "mutex (shared z)"
      with m have "0 < count_list (mx_readers z) MxFirst" by simp
      with p n o[OF l] show False by simp
    qed
    from p n have "num_readers_mx (shared z) + 1 \<noteq> 1" by simp
    with free have "reader_entry (shared z) =
        Some ((shared z)\<lparr>num_readers_mx := num_readers_mx (shared z) + 1\<rparr>, MxReading)"
      by (simp add: reader_entry_def Let_def)
    with i pi len show ?thesis by simp
  qed
  from a b show ?thesis by blast
qed

theorem gate_policy_fixed_witness:
  "mx_run [MxReader 0] (mx_sys_init zero_rand) \<noteq> None \<and>
   (1::nat) < NUM_READERS \<and> (0::nat) < NUM_READERS \<and>
   mx_readers (the (mx_run [MxReader 0] (mx_sys_init zero_rand))) ! 1 = MxIdle \<and>
   mx_readers (the (mx_run [MxReader 0] (mx_sys_init zero_rand))) ! 0 = MxReading \<and>
   mx_step (MxReader 1) (the (mx_run [MxReader 0] (mx_sys_init zero_rand))) \<noteq> None"
proof -
  let ?z = "\<lparr>shared = (init_catalog zero_rand)\<lparr>num_readers_mx := 1, write_mutex := True\<rparr>,
             mx_readers = [MxReading, MxIdle, MxIdle, MxIdle, MxIdle],
             mx_writers = [MxOut, MxOut]\<rparr>"
  have n: "(1::nat) < NUM_READERS" "(0::nat) < NUM_READERS" by (simp_all add: NUM_READERS_def)
  have p: "mx_readers ?z ! 1 = MxIdle" "mx_readers ?z ! 0 = MxReading" by simp_all
  from gate_policy_fixed[of _ "[MxReader 0]" zero_rand ?z 1 0] mx_reader_in_run n p
  have "\<exists>z'. mx_step (MxReader 1) ?z = Some z' \<and> mx_readers z' ! 1 = MxReading"
    by blast
  then have "mx_step (MxReader 1) ?z \<noteq> None" by auto
  with mx_reader_in_run n p show ?thesis by simp
qed

lemma request_zero_run:
  "studio_run [Request 0] studio_monitor_init
     = Some \<lparr>state = [EDITING, THINKING, THINKING, THINKING, THINKING],
             board_in_use = [1, 1, 0, 0, 0], studio_should_stop = 0\<rparr>"
  by code_simp

text \<open>Claim C8 as written fails: \<open>end_write\<close> and \<open>release_boards\<close> check nothing and
  have no error result. \<open>end_write\<close> with no active writer makes \<open>num_writers\<close> negative.
  \<open>release_boards(1)\<close> by editor 1, which holds nothing, while editor 0 is \<open>EDITING\<close> with
  boards 0 and 1, marks board 1 free: the board flags no longer agree with the states.\<close>

theorem release_unchecked_counterexample:
  "num_writers (end_write (catalog_monitor_init zero_rand)) = - 1 \<and>
   \<not> gate_inv (end_write (catalog_monitor_init zero_rand)) \<and>
   studio_run [Request 0] studio_monitor_init
     = Some \<lparr>state = [EDITING, THINKING, THINKING, THINKING, THINKING],
             board_in_use = [1, 1, 0, 0, 0], studio_should_stop = 0\<rparr> \<and>
   release_boards \<lparr>state = [EDITING, THINKING, THINKING, THINKING, THINKING],
             board_in_use = [1, 1, 0, 0, 0], studio_should_stop = 0\<rparr> 1
     = \<lparr>state = [EDITING, THINKING, THINKING, THINKING, THINKING],
         board_in_use = [1, 0, 0, 0, 0], studio_should_stop = 0\<rparr> \<and>
   \<not> studio_inv \<lparr>state = [EDITING, THINKING, THINKING, THINKING, THINKING],
         board_in_use = [1, 0, 0, 0, 0], studio_should_stop = 0\<rparr>"
proof -
  have a: "num_writers (end_write (catalog_monitor_init zero_rand)) = - 1"
    by (simp add: end_write_def catalog_monitor_init_def)
  then have b: "\<not> gate_inv (end_write (catalog_monitor_init zero_rand))"
    by (simp add: gate_inv_def)
  have c: "release_boards \<lparr>state = [EDITING, THINKING, THINKING, THINKING, THINKING],
             board_in_use = [1, 1, 0, 0, 0], studio_should_stop = 0\<rparr> 1
     = \<lparr>state = [EDITING, THINKING, THINKING, THINKING, THINKING],
         board_in_use = [1, 0, 0, 0, 0], studio_should_stop = 0\<rparr>"
    by code_simp
  have d: "\<not> studio_inv \<lparr>state = [EDITING, THINKING, THINKING, THINKING, THINKING],
         board_in_use = [1, 0, 0, 0, 0], studio_should_stop = 0\<rparr>"
    by code_simp
  from a b c d request_zero_run show ?thesis by blast
qed

text \<open>Claim C8, amended. \<open>end_write\<close> always decrements \<open>num_writers\<close>; called with one
  active writer it keeps the invariant of the counters. \<open>release_boards\<close> called for an
  editor that is \<open>EDITING\<close> keeps the invariant of the board flags and states.\<close>

theorem release_in_valid_state:
  "(gate_inv c \<and> num_writers c = 1 \<longrightarrow> gate_inv (end_write c)) \<and>
   (studio_inv s \<and> i < NUM_EDITORS \<and> state s ! i = EDITING \<longrightarrow> studio_inv (release_boards s i)) \<and>
   end_write c = c\<lparr>num_writers := num_writers c - 1\<rparr>"
proof -
  have a: "gate_inv (end_write c)" if "gate_inv c" "num_writers c = 1"
    using that by (simp add: gate_inv_def end_write_def)
  have b: "studio_inv (release_boards s i)"
    if "studio_inv s" "i < NUM_EDITORS" "state s ! i = EDITING"
    using that by (intro studio_inv_release) (simp_all add: NUM_EDITORS_def)
  from a b show ?thesis by (simp add: end_write_def)
qed

theorem release_in_valid_state_witness:
  "gate_inv \<lparr>products = [], num_readers = 0, num_writers = 1, writer_waiting = 0,
      catalog_should_stop = 0\<rparr> \<and>
   gate_inv (end_write \<lparr>products = [], num_readers = 0, num_writers = 1, writer_waiting = 0,
      catalog_should_stop = 0\<rparr>) \<and>
   studio_inv \<lparr>state = [EDITING, THINKING, THINKING, THINKING, THINKING],
      board_in_use = [1, 1, 0, 0, 0], studio_should_stop = 0\<rparr> \<and>
   (0::nat) < NUM_EDITORS \<and>
   studio_inv (release_boards \<lparr>state = [EDITING, THINKING, THINKING, THINKING, THINKING],
      board_in_use = [1, 1, 0, 0, 0], studio_should_stop = 0\<rparr> 0)"
proof -
  let ?c = "\<lparr>products = [], num_readers = 0, num_writers = 1, writer_waiting = 0,
      catalog_should_stop = 0\<rparr>"
  let ?s = "\<lparr>state = [EDITING, THINKING, THINKING, THINKING, THINKING],
      board_in_use = [1, 1, 0, 0, 0], studio_should_stop = 0\<rparr>"
  have g: "gate_inv ?c" "num_writers ?c = 1" by (simp_all add: gate_inv_def)
  have i: "studio_inv ?s" by code_simp
  have n: "(0::nat) < NUM_EDITORS" "state ?s ! 0 = EDITING" by (simp_all add: NUM_EDITORS_def)
  from release_in_valid_state[of ?c ?s 0] g i n show ?thesis by blast
qed

lemma writer_update_length: "length (writer_update ps r1 r2 r3) = length ps"
  by (simp add: writer_update_def Let_def)

lemma catalog_step_length:
  assumes "catalog_step e y = Some y'"
  shows "length (products (cat y')) = length (products (cat y))"
proof (cases e)
  case (ReaderStep i)
  with assms show ?thesis
    by (auto simp: start_read_def end_read_def split: if_splits reader_pc.splits)
next
  case (WriterStep j)
  with assms show ?thesis
    by (auto simp: start_write_register_def start_write_proceed_def end_write_def Let_def
        split: if_splits writer_pc.splits option.splits)
next
  case (WriterUpdate j r1 r2 r3)
  with assms show ?thesis
    by (auto simp: writer_update_length split: if_splits writer_pc.splits)
qed

lemma catalog_run_length:
  "catalog_run es y = Some y' \<Longrightarrow> length (products (cat y')) = length (products (cat y))"
proof (induction es arbitrary: y)
  case Nil
  then show ?case by simp
next
  case (Cons e es)
  from Cons.prems obtain y1 where s: "catalog_step e y = Some y1"
    and r: "catalog_run es y1 = Some y'"
    by (auto split: option.splits)
  from Cons.IH[OF r] catalog_step_length[OF s] show ?case by simp
qed

lemma mx_step_length:
  assumes "mx_step e z = Some z'"
  shows "length (products_mx (shared z')) = length (products_mx (shared z))"
proof (cases e)
  case (MxReader i)
  with assms show ?thesis
    by (auto simp: reader_entry_def reader_first_def reader_exit_def Let_def
        split: if_splits mx_reader_pc.splits)
next
  case (MxWriter j r1 r2 r3)
  with assms show ?thesis
    by (auto simp: writer_entry_def writer_section_def writer_update_length
        split: if_splits mx_writer_pc.splits)
qed

lemma mx_run_length:
  "mx_run es z = Some z' \<Longrightarrow> length (products_mx (shared z')) = length (products_mx (shared z))"
proof (induction es arbitrary: z)
  case Nil
  then show ?case by simp
next
  case (Cons e es)
  from Cons.prems obtain z1 where s: "mx_step e z = Some z1"
    and r: "mx_run es z1 = Some z'"
    by (auto split: option.splits)
  from Cons.IH[OF r] mx_step_length[OF s] show ?case by simp
qed

lemma initial_products_length: "length (initial_products rnd) = MAX_PRODUCTS"
  by (simp add: initial_products_def)

lemma writer_update_nth:
  assumes "length ps = MAX_PRODUCTS"
  shows "writer_update ps r1 r2 r3 ! (r1 mod MAX_PRODUCTS) =
           update_product (ps ! (r1 mod MAX_PRODUCTS)) (int (r2 mod 20) - 10) (int (r3 mod 10) - 3)"
proof -
  have "r1 mod MAX_PRODUCTS < length ps"
    using assms by (simp add: MAX_PRODUCTS_def)
  then show ?thesis
    by (simp add: writer_update_def Let_def)
qed

lemma writer_update_other:
  "k \<noteq> r1 mod MAX_PRODUCTS \<Longrightarrow> writer_update ps r1 r2 r3 ! k = ps ! k"
  by (simp add: writer_update_def Let_def)

text \<open>Claim C9. In both variants every product of every reachable catalog has a
  non-negative stock, and the catalog keeps its \<open>MAX_PRODUCTS\<close> entries. The update step of
  a writer stores, in the product it chose, the old stock plus the change, or 0 when that
  sum is negative, and leaves every other product as it was. On a single product the
  update gives a non-negative stock whatever the stock was before.\<close>

theorem stock_nonneg:
  "(catalog_run es (catalog_sys_init rnd) = Some y \<longrightarrow>
      (\<forall>p\<in>set (products (cat y)). 0 \<le> sint (stock p)) \<and>
      length (products (cat y)) = MAX_PRODUCTS) \<and>
   (catalog_run es (catalog_sys_init rnd) = Some y \<and>
    catalog_step (WriterUpdate j ra rb rc) y = Some y' \<longrightarrow>
      writers y ! j = Writing \<and>
      stock (products (cat y') ! (ra mod MAX_PRODUCTS)) =
        (if sint (stock (products (cat y) ! (ra mod MAX_PRODUCTS))
                    + word_of_int (int (rc mod 10) - 3)) < 0
         then 0
         else stock (products (cat y) ! (ra mod MAX_PRODUCTS)) + word_of_int (int (rc mod 10) - 3)) \<and>
      (\<forall>k. k \<noteq> ra mod MAX_PRODUCTS \<longrightarrow> products (cat y') ! k = products (cat y) ! k)) \<and>
   (mx_run es' (mx_sys_init rnd') = Some z \<longrightarrow>
      (\<forall>p\<in>set (products_mx (shared z)). 0 \<le> sint (stock p)) \<and>
      length (products_mx (shared z)) = MAX_PRODUCTS) \<and>
   (mx_run es' (mx_sys_init rnd') = Some z \<and> mx_writers z ! j' = MxWriting \<and>
    mx_step (MxWriter j' ra rb rc) z = Some z' \<longrightarrow>
      stock (products_mx (shared z') ! (ra mod MAX_PRODUCTS)) =
        (if sint (stock (products_mx (shared z) ! (ra mod MAX_PRODUCTS))
                    + word_of_int (int (rc mod 10) - 3)) < 0
         then 0
         else stock (products_mx (shared z) ! (ra mod MAX_PRODUCTS))
                + word_of_int (int (rc mod 10) - 3)) \<and>
      (\<forall>k. k \<noteq> ra mod MAX_PRODUCTS \<longrightarrow>
         products_mx (shared z') ! k = products_mx (shared z) ! k)) \<and>
   0 \<le> sint (stock (update_product q a b)) \<and>
   stock (update_product q a b) =
     (if sint (stock q + word_of_int b) < 0 then 0 else stock q + word_of_int b)"
proof -
  have i: "\<forall>p\<in>set (products (cat (catalog_sys_init rnd))). 0 \<le> sint (stock p)"
    by (simp add: catalog_sys_init_def catalog_monitor_init_def initial_products_nonneg)
  have j: "\<forall>p\<in>set (products_mx (shared (mx_sys_init rnd'))). 0 \<le> sint (stock p)"
    by (simp add: mx_sys_init_def init_catalog_def initial_products_nonneg)
  have c: "stock (update_product q a b) =
     (if sint (stock q + word_of_int b) < 0 then 0 else stock q + word_of_int b)" for q a b
    by (simp add: update_product_def Let_def)
  have li: "length (products (cat y)) = MAX_PRODUCTS"
    if "catalog_run es (catalog_sys_init rnd) = Some y"
    using catalog_run_length[OF that]
    by (simp add: catalog_sys_init_def catalog_monitor_init_def initial_products_length)
  have lj: "length (products_mx (shared z)) = MAX_PRODUCTS"
    if "mx_run es' (mx_sys_init rnd') = Some z"
    using mx_run_length[OF that]
    by (simp add: mx_sys_init_def init_catalog_def initial_products_length)
  have u: "writers y ! j = Writing \<and>
      stock (products (cat y') ! (ra mod MAX_PRODUCTS)) =
        (if sint (stock (products (cat y) ! (ra mod MAX_PRODUCTS))
                    + word_of_int (int (rc mod 10) - 3)) < 0
         then 0
         else stock (products (cat y) ! (ra mod MAX_PRODUCTS)) + word_of_int (int (rc mod 10) - 3)) \<and>
      (\<forall>k. k \<noteq> ra mod MAX_PRODUCTS \<longrightarrow> products (cat y') ! k = products (cat y) ! k)"
    if run: "catalog_run es (catalog_sys_init rnd) = Some y"
      and st: "catalog_step (WriterUpdate j ra rb rc) y = Some y'"
  proof -
    from st have w: "writers y ! j = Writing"
      and p: "products (cat y') = writer_update (products (cat y)) ra rb rc"
      by (auto split: if_splits writer_pc.splits)
    from writer_update_nth[OF li[OF run], of ra rb rc] w p c show ?thesis
      by (simp add: writer_update_other)
  qed
  have v: "stock (products_mx (shared z') ! (ra mod MAX_PRODUCTS)) =
        (if sint (stock (products_mx (shared z) ! (ra mod MAX_PRODUCTS))
                    + word_of_int (int (rc mod 10) - 3)) < 0
         then 0
         else stock (products_mx (shared z) ! (ra mod MAX_PRODUCTS))
                + word_of_int (int (rc mod 10) - 3)) \<and>
      (\<forall>k. k \<noteq> ra mod MAX_PRODUCTS \<longrightarrow>
         products_mx (shared z') ! k = products_mx (shared z) ! k)"
    if run: "mx_run es' (mx_sys_init rnd') = Some z" and w: "mx_writers z ! j' = MxWriting"
      and st: "mx_step (MxWriter j' ra rb rc) z = Some z'"
  proof -
    from st w have p: "products_mx (shared z') = writer_update (products_mx (shared z)) ra rb rc"
      by (auto simp: writer_section_def split: if_splits)
    from writer_update_nth[OF lj[OF run], of ra rb rc] p c show ?thesis
      by (simp add: writer_update_other)
  qed
  from catalog_run_products[OF i] mx_run_products[OF j] update_product_nonneg c li lj u v
  show ?thesis by blast
qed

lemma writing_sys_run: "catalog_run [WriterStep 0] (catalog_sys_init two_rand) = Some writing_sys"
  by (simp add: gate_eval writing_sys_def eval_nat_numeral)

lemma mx_writing_sys_run:
  "mx_run [MxWriter 0 0 0 0] (mx_sys_init two_rand) = Some mx_writing_sys"
  by (simp add: mx_eval mx_writing_sys_def eval_nat_numeral)

lemma initial_stock_two:
  "k < MAX_PRODUCTS \<Longrightarrow> stock (initial_products two_rand ! k) = 2"
  by (simp add: initial_products_def two_rand_def)

theorem stock_nonneg_witness:
  "catalog_run [WriterStep 0] (catalog_sys_init two_rand) = Some writing_sys \<and>
   stock (products (cat writing_sys) ! 0) = 2 \<and> stock (products (cat writing_sys) ! 1) = 2 \<and>
   catalog_step (WriterUpdate 0 0 0 0) writing_sys \<noteq> None \<and>
   stock (products (cat (the (catalog_step (WriterUpdate 0 0 0 0) writing_sys))) ! 0) = 0 \<and>
   stock (products (cat (the (catalog_step (WriterUpdate 0 0 0 0) writing_sys))) ! 1) = 2 \<and>
   catalog_step (WriterUpdate 0 1 0 9) writing_sys \<noteq> None \<and>
   stock (products (cat (the (catalog_step (WriterUpdate 0 1 0 9) writing_sys))) ! 1) = 8 \<and>
   0 \<le> sint (stock (products (cat writing_sys) ! 0)) \<and>
   length (products (cat writing_sys)) = MAX_PRODUCTS \<and>
   mx_run [MxWriter 0 0 0 0] (mx_sys_init two_rand) = Some mx_writing_sys \<and>
   mx_writers mx_writing_sys ! 0 = MxWriting \<and>
   stock (products_mx (shared mx_writing_sys) ! 0) = 2 \<and>
   mx_step (MxWriter 0 0 0 0) mx_writing_sys \<noteq> None \<and>
   stock (products_mx (shared (the (mx_step (MxWriter 0 0 0 0) mx_writing_sys))) ! 0) = 0 \<and>
   stock (products_mx (shared (the (mx_step (MxWriter 0 1 0 9) mx_writing_sys))) ! 1) = 8 \<and>
   0 \<le> sint (stock (products_mx (shared mx_writing_sys) ! 0)) \<and>
   stock (update_product \<lparr>prod_id = 1, price = 10, stock = 2\<rparr> 0 (- 3)) = 0"
proof -
  have p: "products (cat writing_sys) = initial_products two_rand"
    "products_mx (shared mx_writing_sys) = initial_products two_rand"
    by (simp_all add: writing_sys_def mx_writing_sys_def catalog_monitor_init_def init_catalog_def)
  have k: "(0::nat) < MAX_PRODUCTS" "(1::nat) < MAX_PRODUCTS" by (simp_all add: MAX_PRODUCTS_def)
  have s0: "stock (products (cat writing_sys) ! 0) = 2" "stock (products (cat writing_sys) ! 1) = 2"
    "stock (products_mx (shared mx_writing_sys) ! 0) = 2"
    "stock (products_mx (shared mx_writing_sys) ! 1) = 2"
    using initial_stock_two[OF k(1)] initial_stock_two[OF k(2)] by (simp_all add: p)
  have w: "writers writing_sys ! 0 = Writing" "mx_writers mx_writing_sys ! 0 = MxWriting"
    by (simp_all add: writing_sys_def mx_writing_sys_def)
  from w(1) obtain ya where ya: "catalog_step (WriterUpdate 0 0 0 0) writing_sys = Some ya"
    by (simp add: NUM_WRITERS_def)
  from w(1) obtain yb where yb: "catalog_step (WriterUpdate 0 1 0 9) writing_sys = Some yb"
    by (simp add: NUM_WRITERS_def)
  from w(2) obtain za where za: "mx_step (MxWriter 0 0 0 0) mx_writing_sys = Some za"
    by (simp add: NUM_WRITERS_def)
  from w(2) obtain zb where zb: "mx_step (MxWriter 0 1 0 9) mx_writing_sys = Some zb"
    by (simp add: NUM_WRITERS_def)
  have m: "(0::nat) mod MAX_PRODUCTS = 0" "(1::nat) mod MAX_PRODUCTS = 1"
    "int (0 mod 10) - 3 = - 3" "int (9 mod 10) - 3 = 6"
    by (simp_all add: MAX_PRODUCTS_def)
  have ne: "(1::nat) \<noteq> 0 mod MAX_PRODUCTS" by (simp add: MAX_PRODUCTS_def)
  note reach = stock_nonneg[THEN conjunct1, THEN mp]
  note upd = stock_nonneg[THEN conjunct2, THEN conjunct1, THEN mp]
  note mreach = stock_nonneg[THEN conjunct2, THEN conjunct2, THEN conjunct1, THEN mp]
  note mupd = stock_nonneg[THEN conjunct2, THEN conjunct2, THEN conjunct2, THEN conjunct1, THEN mp]
  from reach[OF writing_sys_run]
  have nn: "\<forall>p\<in>set (products (cat writing_sys)). 0 \<le> sint (stock p)"
    and l: "length (products (cat writing_sys)) = MAX_PRODUCTS"
    by (rule conjunct1, rule conjunct2)
  from mreach[OF mx_writing_sys_run]
  have nm: "\<forall>p\<in>set (products_mx (shared mx_writing_sys)). 0 \<le> sint (stock p)"
    and lm: "length (products_mx (shared mx_writing_sys)) = MAX_PRODUCTS"
    by (rule conjunct1, rule conjunct2)
  from upd[OF conjI[OF writing_sys_run ya]]
  have a1: "stock (products (cat ya) ! (0 mod MAX_PRODUCTS)) =
        (if sint (stock (products (cat writing_sys) ! (0 mod MAX_PRODUCTS))
                    + word_of_int (int (0 mod 10) - 3)) < 0
         then 0
         else stock (products (cat writing_sys) ! (0 mod MAX_PRODUCTS))
                + word_of_int (int (0 mod 10) - 3))"
    and a2: "\<forall>k. k \<noteq> 0 mod MAX_PRODUCTS \<longrightarrow>
        products (cat ya) ! k = products (cat writing_sys) ! k"
    by (rule conjunct2[THEN conjunct1], rule conjunct2[THEN conjunct2])
  from a1 have ra1: "stock (products (cat ya) ! 0) = 0"
    unfolding m s0 by simp
  from a2 ne have "products (cat ya) ! 1 = products (cat writing_sys) ! 1" by blast
  with s0(2) have ra2: "stock (products (cat ya) ! 1) = 2" by simp
  from upd[OF conjI[OF writing_sys_run yb]]
  have "stock (products (cat yb) ! (1 mod MAX_PRODUCTS)) =
        (if sint (stock (products (cat writing_sys) ! (1 mod MAX_PRODUCTS))
                    + word_of_int (int (9 mod 10) - 3)) < 0
         then 0
         else stock (products (cat writing_sys) ! (1 mod MAX_PRODUCTS))
                + word_of_int (int (9 mod 10) - 3))"
    by (rule conjunct2[THEN conjunct1])
  then have rb: "stock (products (cat yb) ! 1) = 8"
    unfolding m s0 by simp
  from mupd[OF conjI[OF mx_writing_sys_run conjI[OF w(2) za]]]
  have "stock (products_mx (shared za) ! (0 mod MAX_PRODUCTS)) =
        (if sint (stock (products_mx (shared mx_writing_sys) ! (0 mod MAX_PRODUCTS))
                    + word_of_int (int (0 mod 10) - 3)) < 0
         then 0
         else stock (products_mx (shared mx_writing_sys) ! (0 mod MAX_PRODUCTS))
                + word_of_int (int (0 mod 10) - 3))"
    by (rule conjunct1)
  then have rc: "stock (products_mx (shared za) ! 0) = 0"
    unfolding m s0 by simp
  from mupd[OF conjI[OF mx_writing_sys_run conjI[OF w(2) zb]]]
  have "stock (products_mx (shared zb) ! (1 mod MAX_PRODUCTS)) =
        (if sint (stock (products_mx (shared mx_writing_sys) ! (1 mod MAX_PRODUCTS))
                    + word_of_int (int (9 mod 10) - 3)) < 0
         then 0
         else stock (products_mx (shared mx_writing_sys) ! (1 mod MAX_PRODUCTS))
                + word_of_int (int (9 mod 10) - 3))"
    by (rule conjunct1)
  then have rd: "stock (products_mx (shared zb) ! 1) = 8"
    unfolding m s0 by simp
  from l k(1) have "products (cat writing_sys) ! 0 \<in> set (products (cat writing_sys))"
    by (intro nth_mem) simp
  with nn have n1: "0 \<le> sint (stock (products (cat writing_sys) ! 0))" by blast
  from lm k(1) have "products_mx (shared mx_writing_sys) ! 0
      \<in> set (products_mx (shared mx_writing_sys))"
    by (intro nth_mem) simp
  with nm have n2: "0 \<le> sint (stock (products_mx (shared mx_writing_sys) ! 0))" by blast
  have u: "stock (update_product \<lparr>prod_id = 1, price = 10, stock = 2\<rparr> 0 (- 3)) = 0"
    by (simp add: update_product_def)
  have o: "catalog_step (WriterUpdate 0 0 0 0) writing_sys \<noteq> None"
    "catalog_step (WriterUpdate 0 1 0 9) writing_sys \<noteq> None"
    "mx_step (MxWriter 0 0 0 0) mx_writing_sys \<noteq> None"
    unfolding ya yb za by simp_all
  have t: "the (catalog_step (WriterUpdate 0 0 0 0) writing_sys) = ya"
    "the (catalog_step (WriterUpdate 0 1 0 9) writing_sys) = yb"
    "the (mx_step (MxWriter 0 0 0 0) mx_writing_sys) = za"
    "the (mx_step (MxWriter 0 1 0 9) mx_writing_sys) = zb"
    unfolding ya yb za zb by simp_all
  show ?thesis
    unfolding t
    by (intro conjI writing_sys_run mx_writing_sys_run s0(1,2,3) w(2) o ra1 ra2 rb rc rd l n1 n2 u)
qed

end
